theory Spec2Isabelle
  imports Complex_Main
begin

section \<open>JavaScript values\<close>

text \<open>
  A JavaScript string is a sequence of UTF-16 code units; \<open>length\<close>, \<open>slice\<close> and
  indexing count code units. A code unit is a natural number, and \<open>js\<close> turns an ASCII
  literal into its code units. Numbers that hold counts are naturals; the arithmetic of
  the numbers that hold scores is a parameter of the classifier (section Numbers).
\<close>

type_synonym jstring = "nat list"

definition js :: "string \<Rightarrow> jstring" where
  "js s = map of_char s"

text \<open>
  \<open>String.prototype.toLowerCase\<close> follows the case mapping of Unicode: it can change the
  length of a string (U+0130 becomes two units), it maps units outside ASCII into ASCII
  (U+212A becomes \<open>k\<close>), and the image of a unit can depend on its neighbours. The
  functions that call it take it as the parameter \<open>lc\<close>, an arbitrary function on
  strings, so that a property proved for every \<open>lc\<close> holds of the mapping of the runtime.
  \<open>asciiLower\<close> is the mapping on the strings of ASCII units, where it changes the
  letters \<open>A\<close> to \<open>Z\<close> and nothing else; \<open>lowersAscii lc\<close> says that \<open>lc\<close> is this mapping on
  every string of ASCII units and ellipses (U+2026 has no case), as the mapping of the
  runtime is. \<open>upperUnit\<close> is \<open>toUpperCase\<close> on a unit of ASCII.
\<close>

definition lowerUnit :: "nat \<Rightarrow> nat" where
  "lowerUnit c = (if 65 \<le> c \<and> c \<le> 90 then c + 32 else c)"

definition upperUnit :: "nat \<Rightarrow> nat" where
  "upperUnit c = (if 97 \<le> c \<and> c \<le> 122 then c - 32 else c)"

definition asciiLower :: "jstring \<Rightarrow> jstring" where
  "asciiLower s = map lowerUnit s"

definition plainUnits :: "jstring \<Rightarrow> bool" where
  "plainUnits s = list_all (\<lambda>u. u < 128 \<or> u = 8230) s"

definition lowersAscii :: "(jstring \<Rightarrow> jstring) \<Rightarrow> bool" where
  "lowersAscii lc = (\<forall>s. plainUnits s \<longrightarrow> lc s = asciiLower s)"

text \<open>
  A \<open>Set\<close> keeps its members in insertion order, without duplicates; a \<open>Map\<close> keeps its
  entries in the order the keys were first set, and setting a key again replaces the
  value in place.
\<close>

definition setAdd :: "'a list \<Rightarrow> 'a \<Rightarrow> 'a list" where
  "setAdd xs x = (if x \<in> set xs then xs else xs @ [x])"

definition newSet :: "'a list \<Rightarrow> 'a list" where
  "newSet xs = foldl setAdd [] xs"

fun mapSet :: "('k \<times> 'v) list \<Rightarrow> 'k \<Rightarrow> 'v \<Rightarrow> ('k \<times> 'v) list" where
  "mapSet [] k v = [(k, v)]"
| "mapSet (p # ps) k v = (if fst p = k then (k, v) # ps else p # mapSet ps k v)"

definition mapGet :: "('k \<times> 'v) list \<Rightarrow> 'k \<Rightarrow> 'v option" where
  "mapGet m k = map_of m k"

text \<open>\<open>m.get(k) || 0\<close>: a missing key and a zero entry both read as zero.\<close>

definition getOrZero :: "('k \<times> nat) list \<Rightarrow> 'k \<Rightarrow> nat" where
  "getOrZero m k = (case mapGet m k of None \<Rightarrow> 0 | Some c \<Rightarrow> c)"

section \<open>Numbers\<close>

text \<open>
  A JavaScript number is an IEEE 754 double. The classifier converts counts to numbers,
  adds, subtracts and divides them, calls \<open>Math.log\<close> and \<open>Math.exp\<close>, and compares the
  results. These operations are the parameter \<open>ar\<close> of the classifier, and the order of
  the numbers is the order of their type, so that every property names the arithmetic it
  is proved in.

  \<open>exact\<close> is the arithmetic of the real numbers, without rounding. \<open>doubles\<close> is the
  arithmetic of the doubles: every operation returns its exact result rounded to the
  nearest double, a tie going to the even significand (\<open>toDouble\<close>: 53 bits of
  significand, and below \<open>2^-1022\<close> the fixed spacing \<open>2^-1074\<close> of the subnormal numbers).
  The exponent has no upper bound in \<open>toDouble\<close>, and there is no infinity and no NaN:
  \<open>doubles\<close> is the arithmetic of the runtime as long as no result reaches \<open>2^1024\<close>, no
  divisor is zero and no logarithm is taken of zero. The classifier divides by sums of a
  count and a positive number and takes logarithms of positive quotients of counts.
  ECMAScript leaves the last bit of \<open>Math.log\<close> and \<open>Math.exp\<close> to the implementation;
  here both round correctly. A count is below \<open>2^53\<close>, so it and its successor are doubles.
\<close>

record 'n arith =
  numN :: "nat \<Rightarrow> 'n"
  addN :: "'n \<Rightarrow> 'n \<Rightarrow> 'n"
  subN :: "'n \<Rightarrow> 'n \<Rightarrow> 'n"
  divN :: "'n \<Rightarrow> 'n \<Rightarrow> 'n"
  logN :: "'n \<Rightarrow> 'n"
  expN :: "'n \<Rightarrow> 'n"

definition exact :: "real arith" where
  "exact = \<lparr>numN = real, addN = (\<lambda>a b. a + b), subN = (\<lambda>a b. a - b), divN = (\<lambda>a b. a / b),
     logN = ln, expN = exp\<rparr>"

text \<open>Rounding to the nearest integer, a tie going to the even one.\<close>

definition rne :: "real \<Rightarrow> int" where
  "rne x =
     (let f = \<lfloor>x\<rfloor>; d = x - of_int f
      in if d < 1 / 2 then f else if 1 / 2 < d then f + 1 else if even f then f else f + 1)"

definition toDouble :: "real \<Rightarrow> real" where
  "toDouble x =
     (if x = 0 then 0
      else (let e = max (\<lfloor>log 2 \<bar>x\<bar>\<rfloor> - 52) (- 1074)
            in sgn x * of_int (rne (\<bar>x\<bar> / 2 powr of_int e)) * 2 powr of_int e))"

definition doubles :: "real arith" where
  "doubles = \<lparr>numN = (\<lambda>n. toDouble (real n)), addN = (\<lambda>a b. toDouble (a + b)),
     subN = (\<lambda>a b. toDouble (a - b)), divN = (\<lambda>a b. toDouble (a / b)),
     logN = (\<lambda>a. toDouble (ln a)), expN = (\<lambda>a. toDouble (exp a))\<rparr>"

text \<open>
  The partial sums of the exponential series in Horner's form, from the last term down:
  \<open>hornerExp x j acc\<close> is the sum of the first \<open>j\<close> terms plus \<open>acc\<close> times the next one.
  They bound the logarithm of 2 between two neighbouring quarters of a double spacing.
\<close>

fun hornerExp :: "real \<Rightarrow> nat \<Rightarrow> real \<Rightarrow> real" where
  "hornerExp x 0 acc = acc"
| "hornerExp x (Suc j) acc = hornerExp x j (1 + x / real (Suc j) * acc)"

section \<open>Regular expressions\<close>

text \<open>
  The regular expressions of the source, by their backtracking semantics. A cursor is a
  place in the subject: the unit before it (none at the start), its index, and the units
  from it on. \<open>ends r cur\<close> lists the cursors where a match of \<open>r\<close> that starts at \<open>cur\<close>
  may end, in the order in which the matcher tries them; the match the engine reports is
  the first one. A greedy repetition tries one more round before it stops, and a round
  that consumes nothing is refused, so a repetition makes at most one round for each
  unit that is left.
\<close>

datatype re =
    Chr "nat \<Rightarrow> bool"
  | Eps
  | Cat re re
  | Alt re re
  | Star re
  | Opt re
  | WordB
  | Bol
  | Behind "nat \<Rightarrow> bool"

type_synonym cursor = "nat option \<times> nat \<times> jstring"

definition prev :: "cursor \<Rightarrow> nat option" where
  "prev cur = fst cur"

definition pos :: "cursor \<Rightarrow> nat" where
  "pos cur = fst (snd cur)"

definition rest :: "cursor \<Rightarrow> jstring" where
  "rest cur = snd (snd cur)"

definition start :: "jstring \<Rightarrow> cursor" where
  "start s = (None, 0, s)"

definition isWordUnit :: "nat \<Rightarrow> bool" where
  "isWordUnit c = ((48 \<le> c \<and> c \<le> 57) \<or> (65 \<le> c \<and> c \<le> 90) \<or> c = 95 \<or> (97 \<le> c \<and> c \<le> 122))"

definition isDigit :: "nat \<Rightarrow> bool" where
  "isDigit c = (48 \<le> c \<and> c \<le> 57)"

definition isLower :: "nat \<Rightarrow> bool" where
  "isLower c = (97 \<le> c \<and> c \<le> 122)"

definition isLowerOrDigit :: "nat \<Rightarrow> bool" where
  "isLowerOrDigit c = ((97 \<le> c \<and> c \<le> 122) \<or> (48 \<le> c \<and> c \<le> 57))"

text \<open>The class \<open>\s\<close>: the white space and line terminators of ECMAScript.\<close>

definition isSpace :: "nat \<Rightarrow> bool" where
  "isSpace c = ((9 \<le> c \<and> c \<le> 13) \<or> c = 32 \<or> c = 160 \<or> c = 5760 \<or> (8192 \<le> c \<and> c \<le> 8202)
     \<or> c = 8232 \<or> c = 8233 \<or> c = 8239 \<or> c = 8287 \<or> c = 12288 \<or> c = 65279)"

definition wordBefore :: "cursor \<Rightarrow> bool" where
  "wordBefore cur = (case prev cur of None \<Rightarrow> False | Some c \<Rightarrow> isWordUnit c)"

definition wordAfter :: "cursor \<Rightarrow> bool" where
  "wordAfter cur = (case rest cur of [] \<Rightarrow> False | c # cs \<Rightarrow> isWordUnit c)"

fun starEnds :: "(cursor \<Rightarrow> cursor list) \<Rightarrow> jstring \<Rightarrow> cursor \<Rightarrow> cursor list" where
  "starEnds f [] cur = [cur]"
| "starEnds f (u # fuel) cur =
     concat (map (starEnds f fuel) (filter (\<lambda>c. pos cur < pos c) (f cur))) @ [cur]"

primrec ends :: "re \<Rightarrow> cursor \<Rightarrow> cursor list" where
  "ends (Chr p) cur =
     (case rest cur of [] \<Rightarrow> [] | c # cs \<Rightarrow> if p c then [(Some c, Suc (pos cur), cs)] else [])"
| "ends Eps cur = [cur]"
| "ends (Cat a b) cur = concat (map (ends b) (ends a cur))"
| "ends (Alt a b) cur = ends a cur @ ends b cur"
| "ends (Star a) cur = starEnds (ends a) (rest cur) cur"
| "ends (Opt a) cur = filter (\<lambda>c. pos cur < pos c) (ends a cur) @ [cur]"
| "ends WordB cur = (if wordBefore cur \<noteq> wordAfter cur then [cur] else [])"
| "ends Bol cur = (if pos cur = 0 then [cur] else [])"
| "ends (Behind p) cur = (case prev cur of None \<Rightarrow> [] | Some c \<Rightarrow> if p c then [cur] else [])"

definition Plus :: "re \<Rightarrow> re" where
  "Plus a = Cat a (Star a)"

fun seq :: "re list \<Rightarrow> re" where
  "seq [] = Eps"
| "seq [r] = r"
| "seq (r # rs) = Cat r (seq rs)"

fun alts :: "re list \<Rightarrow> re" where
  "alts [] = Eps"
| "alts [r] = r"
| "alts (r # rs) = Alt r (alts rs)"

text \<open>A literal, and a literal under the flag \<open>i\<close> (the letters of ASCII in either case).\<close>

definition lit :: "string \<Rightarrow> re" where
  "lit w = seq (map (\<lambda>c. Chr (\<lambda>x. x = c)) (js w))"

definition litI :: "string \<Rightarrow> re" where
  "litI w = seq (map (\<lambda>c. Chr (\<lambda>x. upperUnit x = upperUnit c)) (js w))"

definition matchAt :: "re \<Rightarrow> cursor \<Rightarrow> cursor option" where
  "matchAt r cur = (case ends r cur of [] \<Rightarrow> None | c # cs \<Rightarrow> Some c)"

text \<open>A match ends at a cursor of the same subject: what it consumed is gone from the rest.\<close>

lemma starEnds_consumes:
  assumes "\<And>cur c. c \<in> set (f cur) \<Longrightarrow> pos c + length (rest c) = pos cur + length (rest cur)"
  shows "c \<in> set (starEnds f fuel cur) \<Longrightarrow> pos c + length (rest c) = pos cur + length (rest cur)"
proof (induction fuel arbitrary: cur c)
  case Nil
  then show ?case by simp
next
  case (Cons u fuel)
  from Cons.prems consider "c = cur"
    | d where "d \<in> set (f cur)" "c \<in> set (starEnds f fuel d)"
    by auto
  then show ?case
  proof cases
    case 1
    then show ?thesis by simp
  next
    case 2
    from Cons.IH [OF 2(2)] assms [OF 2(1)] show ?thesis by simp
  qed
qed

lemma ends_consumes:
  "c \<in> set (ends r cur) \<Longrightarrow> pos c + length (rest c) = pos cur + length (rest cur)"
proof (induction r arbitrary: cur c)
  case (Chr p)
  show ?case
  proof (cases "rest cur")
    case Nil
    with Chr show ?thesis by simp
  next
    case (Cons u us)
    with Chr have "c = (Some u, Suc (pos cur), us)"
      by (simp split: if_splits)
    with Cons show ?thesis by (simp add: pos_def rest_def)
  qed
next
  case Eps
  then show ?case by simp
next
  case (Cat a b)
  from Cat.prems obtain d where d: "d \<in> set (ends a cur)" "c \<in> set (ends b d)"
    by auto
  from Cat.IH(1) [OF d(1)] Cat.IH(2) [OF d(2)] show ?case by simp
next
  case (Alt a b)
  from Alt.prems have "c \<in> set (ends a cur) \<or> c \<in> set (ends b cur)" by simp
  with Alt.IH show ?case by blast
next
  case (Star a)
  from Star.prems have "c \<in> set (starEnds (ends a) (rest cur) cur)" by simp
  with Star.IH show ?case by (rule starEnds_consumes [of "ends a"])
next
  case (Opt a)
  from Opt.prems have "c \<in> set (ends a cur) \<or> c = cur" by auto
  with Opt.IH show ?case by blast
next
  case WordB
  then have "c = cur" by (simp split: if_splits)
  then show ?case by simp
next
  case Bol
  then have "c = cur" by (simp split: if_splits)
  then show ?case by simp
next
  case (Behind p)
  then have "c = cur" by (auto split: option.splits if_splits)
  then show ?case by simp
qed

lemma matchAt_shorter:
  "matchAt r cur = Some c \<Longrightarrow> pos cur < pos c \<Longrightarrow> length (rest c) < length (rest cur)"
proof -
  assume m: "matchAt r cur = Some c" and p: "pos cur < pos c"
  from m have "c \<in> set (ends r cur)"
    by (simp add: matchAt_def split: list.splits)
  from ends_consumes [OF this] p show ?thesis by simp
qed

definition step1 :: "nat \<Rightarrow> jstring \<Rightarrow> cursor \<Rightarrow> cursor" where
  "step1 u us cur = (Some u, Suc (pos cur), us)"

lemma rest_step1: "rest (step1 u us cur) = us"
  by (simp add: step1_def rest_def)

lemma matchAt_smaller:
  "matchAt r cur = Some c \<Longrightarrow> pos cur < pos c \<Longrightarrow> rest cur = u # us \<Longrightarrow>
   length (rest c) < Suc (length us)"
  by (drule (1) matchAt_shorter) simp

text \<open>
  \<open>s.match(/r/g) || []\<close>: the matches from left to right, each search starting where
  the last match ended, one unit further after an empty match.
\<close>

function matchAll :: "re \<Rightarrow> cursor \<Rightarrow> jstring list" where
  "matchAll r cur =
     (case matchAt r cur of
        None \<Rightarrow> (case rest cur of [] \<Rightarrow> [] | u # us \<Rightarrow> matchAll r (step1 u us cur))
      | Some c \<Rightarrow>
          if pos cur < pos c then take (pos c - pos cur) (rest cur) # matchAll r c
          else [] # (case rest cur of [] \<Rightarrow> [] | u # us \<Rightarrow> matchAll r (step1 u us cur)))"
  by pat_completeness auto
termination
  by (relation "measure (\<lambda>(r, cur). length (rest cur))")
     (simp_all add: rest_step1 matchAt_shorter matchAt_smaller)

text \<open>\<open>s.replace(/r/g, rep)\<close> for a fixed replacement.\<close>

function replaceAll :: "re \<Rightarrow> jstring \<Rightarrow> cursor \<Rightarrow> jstring" where
  "replaceAll r rep cur =
     (case matchAt r cur of
        None \<Rightarrow> (case rest cur of [] \<Rightarrow> [] | u # us \<Rightarrow> u # replaceAll r rep (step1 u us cur))
      | Some c \<Rightarrow>
          if pos cur < pos c then rep @ replaceAll r rep c
          else rep @ (case rest cur of [] \<Rightarrow> [] | u # us \<Rightarrow> u # replaceAll r rep (step1 u us cur)))"
  by pat_completeness auto
termination
  by (relation "measure (\<lambda>(r, rep, cur). length (rest cur))")
     (simp_all add: rest_step1 matchAt_shorter matchAt_smaller)

text \<open>
  \<open>s.replace(/r/, f)\<close> without the flag \<open>g\<close>: the first match from the left is replaced
  by \<open>f\<close> of the matched text.
\<close>

fun replaceFirst :: "re \<Rightarrow> (jstring \<Rightarrow> jstring) \<Rightarrow> cursor \<Rightarrow> jstring" where
  "replaceFirst r f (pv, i, []) =
     (case matchAt r (pv, i, []) of None \<Rightarrow> [] | Some c \<Rightarrow> f [])"
| "replaceFirst r f (pv, i, u # us) =
     (case matchAt r (pv, i, u # us) of
        None \<Rightarrow> u # replaceFirst r f (Some u, Suc i, us)
      | Some c \<Rightarrow> f (take (pos c - i) (u # us)) @ drop (pos c - i) (u # us))"

text \<open>
  \<open>s.split(/r/)\<close> for a subject that is not empty: \<open>piece\<close> holds the units since the last
  separator. A match is tried at every place before the end; one that ends where the
  piece began is passed over, any other closes the piece.
\<close>

function splitRe :: "re \<Rightarrow> jstring \<Rightarrow> cursor \<Rightarrow> jstring list" where
  "splitRe r piece cur =
     (case rest cur of
        [] \<Rightarrow> [piece]
      | u # us \<Rightarrow>
          (case matchAt r cur of
             None \<Rightarrow> splitRe r (piece @ [u]) (step1 u us cur)
           | Some c \<Rightarrow>
               if pos cur < pos c then piece # splitRe r [] c
               else if piece = [] then splitRe r (piece @ [u]) (step1 u us cur)
               else piece # splitRe r [] cur))"
  by pat_completeness auto
termination
  by (relation "measures [\<lambda>(r, piece, cur). length (rest cur), \<lambda>(r, piece, cur). length piece]")
     (simp_all add: rest_step1 matchAt_shorter matchAt_smaller)

definition splitBy :: "re \<Rightarrow> jstring \<Rightarrow> jstring list" where
  "splitBy r s =
     (if s = [] then (case matchAt r (start s) of None \<Rightarrow> [s] | Some c \<Rightarrow> [])
      else splitRe r [] (start s))"

definition trim :: "jstring \<Rightarrow> jstring" where
  "trim s = rev (dropWhile isSpace (rev (dropWhile isSpace s)))"

fun joinWith :: "jstring \<Rightarrow> jstring list \<Rightarrow> jstring" where
  "joinWith sep [] = []"
| "joinWith sep [x] = x"
| "joinWith sep (x # xs) = x @ sep @ joinWith sep xs"

section \<open>The classifier\<close>

text \<open>
  The bias route, \<open>src/app/api/bias/route.ts\<close>: the types \<open>Label\<close>, \<open>DatasetRow\<close> and
  \<open>BiasModel\<close> (lines 5 to 16), \<open>tokenize\<close> (29 to 109), \<open>trainNaiveBayes\<close> (111 to 142),
  \<open>softmaxLogScores\<close> (144 to 154), \<open>predict\<close> (156 to 185) and the handler \<open>POST\<close>
  (364 to 386). An object with one count for each label is a function on the labels.
\<close>

datatype Label = Neutral | SlightlyBiased | HighlyBiased

record DatasetRow =
  row_text :: jstring
  row_label :: Label

record BiasModel =
  labels :: "Label list"
  vocab :: "jstring list"
  docCount :: "Label \<Rightarrow> nat"
  tokenCounts :: "Label \<Rightarrow> (jstring \<times> nat) list"
  totalTokens :: "Label \<Rightarrow> nat"
  trainedOn :: nat

text \<open>
  The stop words are only asked for membership (\<open>stop.has(t)\<close>), so the set is
  the list of its members as the source writes them.
\<close>

definition stop :: "jstring list" where
  "stop = (map js
     [''the'', ''and'', ''for'', ''that'', ''with'', ''this'', ''from'', ''have'', ''has'', ''had'',
      ''are'', ''was'', ''were'', ''but'', ''not'', ''you'', ''your'', ''our'', ''their'', ''they'',
      ''his'', ''her'', ''its'', ''who'', ''what'', ''when'', ''where'', ''why'', ''how'', ''can'',
      ''will'', ''would'', ''could'', ''should'', ''said'', ''says'', ''say'', ''into'', ''over'',
      ''under'', ''than'', ''then'', ''also'', ''more'', ''most'', ''some'', ''any'', ''all'',
      ''because'', ''been'', ''after'', ''before'', ''about'', ''against'', ''between'',
      ''during'', ''without'', ''within'', ''while'', ''into'', ''onto'', ''off'', ''per'', ''via'',
      ''as'', ''by'', ''at'', ''on'', ''in'', ''to'', ''of'', ''a'', ''an'', ''it''])"

definition tokenize :: "(jstring \<Rightarrow> jstring) \<Rightarrow> jstring \<Rightarrow> jstring list" where
  "tokenize lc txt =
     (let tokens = matchAll (Plus (Chr isLower)) (start (lc txt))
      in filter (\<lambda>t. 3 \<le> length t \<and> t \<notin> set stop) tokens)"

text \<open>
  The accumulators of \<open>trainNaiveBayes\<close>, and its two loops: \<open>trainToken\<close> is the body of
  the loop over the distinct tokens of a row, \<open>trainRow\<close> the body of the loop over the rows.
\<close>

record TrainState =
  ts_vocab :: "jstring list"
  ts_docCount :: "Label \<Rightarrow> nat"
  ts_tokenCounts :: "Label \<Rightarrow> (jstring \<times> nat) list"
  ts_totalTokens :: "Label \<Rightarrow> nat"

definition trainToken :: "Label \<Rightarrow> TrainState \<Rightarrow> jstring \<Rightarrow> TrainState" where
  "trainToken l st t =
     st\<lparr>ts_vocab := setAdd (ts_vocab st) t,
        ts_tokenCounts := (ts_tokenCounts st)
           (l := mapSet (ts_tokenCounts st l) t (getOrZero (ts_tokenCounts st l) t + 1)),
        ts_totalTokens := (ts_totalTokens st)(l := ts_totalTokens st l + 1)\<rparr>"

definition trainRow :: "(jstring \<Rightarrow> jstring) \<Rightarrow> TrainState \<Rightarrow> DatasetRow \<Rightarrow> TrainState" where
  "trainRow lc st row =
     (let toks = newSet (tokenize lc (row_text row));
          st1 = st\<lparr>ts_docCount := (ts_docCount st)(row_label row := ts_docCount st (row_label row) + 1)\<rparr>
      in foldl (trainToken (row_label row)) st1 toks)"

definition trainInit :: TrainState where
  "trainInit = \<lparr>ts_vocab = [], ts_docCount = (\<lambda>l. 0), ts_tokenCounts = (\<lambda>l. []),
     ts_totalTokens = (\<lambda>l. 0)\<rparr>"

definition trainNaiveBayes :: "(jstring \<Rightarrow> jstring) \<Rightarrow> DatasetRow list \<Rightarrow> BiasModel" where
  "trainNaiveBayes lc rows =
     (let st = foldl (trainRow lc) trainInit rows
      in \<lparr>labels = [Neutral, SlightlyBiased, HighlyBiased], vocab = ts_vocab st,
          docCount = ts_docCount st, tokenCounts = ts_tokenCounts st,
          totalTokens = ts_totalTokens st, trainedOn = length rows\<rparr>)"

subsection \<open>Prediction\<close>

text \<open>
  An object with label keys (\<open>Record<Label, number>\<close>) built by assignments is a list of
  entries in the order of the first assignment of each key. \<open>softmaxLogScores\<close> is two
  steps: \<open>expScores\<close> (lines 145 to 150) subtracts the greatest score and exponentiates,
  \<open>normalizeExps\<close> (lines 151 and 152) adds the exponentials up from 0, from left to
  right, and divides by \<open>sum || 1\<close>. With no scores there is nothing to exponentiate,
  whatever \<open>Math.max()\<close> of nothing is.
\<close>

definition expScores :: "'n::linorder arith \<Rightarrow> (Label \<times> 'n) list \<Rightarrow> (Label \<times> 'n) list" where
  "expScores ar scores =
     (case map snd scores of
        [] \<Rightarrow> []
      | v # vs \<Rightarrow> (let mx = foldl max v vs in map (\<lambda>(k, v). (k, expN ar (subN ar v mx))) scores))"

definition expSum :: "'n arith \<Rightarrow> (Label \<times> 'n) list \<Rightarrow> 'n" where
  "expSum ar exps = foldl (\<lambda>a b. addN ar a b) (numN ar 0) (map snd exps)"

definition normalizeExps :: "'n arith \<Rightarrow> (Label \<times> 'n) list \<Rightarrow> (Label \<times> 'n) list" where
  "normalizeExps ar exps =
     (let sum = expSum ar exps
      in map (\<lambda>(k, v). (k, divN ar v (if sum = numN ar 0 then numN ar 1 else sum))) exps)"

definition softmaxLogScores :: "'n::linorder arith \<Rightarrow> (Label \<times> 'n) list \<Rightarrow> (Label \<times> 'n) list" where
  "softmaxLogScores ar scores = normalizeExps ar (expScores ar scores)"

text \<open>
  \<open>predict\<close>: \<open>totalDocs\<close> is \<open>N\<close>, \<open>vocabSize\<close> is \<open>V\<close>; the two denominators are named, as
  they are the divisors of the function. \<open>tokenStep\<close> is the body of the loop over the
  tokens, \<open>logScore\<close> the body of the loop over the labels: the logarithms are added to
  the prior one by one, in the order of the tokens.
\<close>

definition totalDocs :: "BiasModel \<Rightarrow> nat" where
  "totalDocs model = foldl (\<lambda>acc l. acc + docCount model l) 0 (labels model)"

definition vocabSize :: "BiasModel \<Rightarrow> nat" where
  "vocabSize model = max 1 (length (vocab model))"

definition priorDenominator :: "BiasModel \<Rightarrow> nat" where
  "priorDenominator model = totalDocs model + length (labels model)"

definition likelihoodDenominator :: "BiasModel \<Rightarrow> Label \<Rightarrow> nat" where
  "likelihoodDenominator model l = totalTokens model l + vocabSize model"

definition tokenStep :: "'n arith \<Rightarrow> BiasModel \<Rightarrow> Label \<Rightarrow> 'n \<Rightarrow> jstring \<Rightarrow> 'n" where
  "tokenStep ar model l ll t =
     (let count = getOrZero (tokenCounts model l) t;
          prob = divN ar (numN ar (count + 1)) (numN ar (likelihoodDenominator model l))
      in addN ar ll (logN ar prob))"

definition logScore :: "'n arith \<Rightarrow> BiasModel \<Rightarrow> jstring list \<Rightarrow> Label \<Rightarrow> 'n" where
  "logScore ar model toks l =
     (let prior = logN ar (divN ar (numN ar (docCount model l + 1)) (numN ar (priorDenominator model)))
      in foldl (tokenStep ar model l) prior toks)"

definition logScores :: "'n arith \<Rightarrow> BiasModel \<Rightarrow> jstring list \<Rightarrow> (Label \<times> 'n) list" where
  "logScores ar model toks =
     foldl (\<lambda>ls l. mapSet ls l (logScore ar model toks l)) [] (labels model)"

text \<open>
  The running maximum starts at \<open>Number.NEGATIVE_INFINITY\<close>, here \<open>None\<close>; a label with no
  score reads as \<open>undefined\<close>, which is not greater than any number.
\<close>

definition greaterThan :: "'n::linorder option \<Rightarrow> 'n option \<Rightarrow> bool" where
  "greaterThan x best =
     (case x of None \<Rightarrow> False | Some v \<Rightarrow> (case best of None \<Rightarrow> True | Some b \<Rightarrow> b < v))"

definition bestStep :: "(Label \<times> 'n::linorder) list \<Rightarrow> Label option \<times> 'n option \<Rightarrow> Label
    \<Rightarrow> Label option \<times> 'n option" where
  "bestStep scores acc l =
     (if greaterThan (mapGet scores l) (snd acc) then (Some l, mapGet scores l) else acc)"

definition bestLabel :: "Label list \<Rightarrow> (Label \<times> 'n::linorder) list \<Rightarrow> Label option" where
  "bestLabel ls scores =
     fst (foldl (bestStep scores) (case ls of [] \<Rightarrow> None | l # _ \<Rightarrow> Some l, None) ls)"

record 'n Prediction =
  p_label :: "Label option"
  p_probs :: "(Label \<times> 'n) list"

definition predict :: "'n::linorder arith \<Rightarrow> (jstring \<Rightarrow> jstring) \<Rightarrow> BiasModel \<Rightarrow> jstring \<Rightarrow> 'n Prediction" where
  "predict ar lc model txt =
     (let toks = newSet (tokenize lc txt);
          scores = logScores ar model toks
      in \<lparr>p_label = bestLabel (labels model) scores, p_probs = softmaxLogScores ar scores\<rparr>)"

subsection \<open>The response of the route\<close>

text \<open>
  \<open>probs[l]\<close> is \<open>undefined\<close> when \<open>l\<close> is no key of \<open>probs\<close>; \<open>scoresOf\<close> is \<open>None\<close> then.
  \<open>Array.prototype.sort\<close> is stable and puts \<open>a\<close> after \<open>b\<close> when the comparator
  \<open>b.score - a.score\<close> is positive: \<open>sortByScore\<close> inserts every pair, from the last to
  the first, before the first pair that the comparator does not put before it. When the
  sign of the difference follows the order of the scores, as it does in \<open>exact\<close> and in
  \<open>doubles\<close>, this is the stable sort by descending score.
\<close>

fun scoresOf :: "Label list \<Rightarrow> (Label \<times> 'n) list \<Rightarrow> (Label \<times> 'n) list option" where
  "scoresOf [] probs = Some []"
| "scoresOf (l # ls) probs =
     (case mapGet probs l of
        None \<Rightarrow> None
      | Some v \<Rightarrow> (case scoresOf ls probs of None \<Rightarrow> None | Some r \<Rightarrow> Some ((l, v) # r)))"

definition compareScores :: "'n arith \<Rightarrow> Label \<times> 'n \<Rightarrow> Label \<times> 'n \<Rightarrow> 'n" where
  "compareScores ar a b = subN ar (snd b) (snd a)"

fun insertByScore :: "'n::linorder arith \<Rightarrow> Label \<times> 'n \<Rightarrow> (Label \<times> 'n) list \<Rightarrow> (Label \<times> 'n) list" where
  "insertByScore ar a [] = [a]"
| "insertByScore ar a (b # bs) =
     (if numN ar 0 < compareScores ar a b then b # insertByScore ar a bs else a # b # bs)"

definition sortByScore :: "'n::linorder arith \<Rightarrow> (Label \<times> 'n) list \<Rightarrow> (Label \<times> 'n) list" where
  "sortByScore ar ps = foldr (insertByScore ar) ps []"

definition probabilities :: "'n::linorder arith \<Rightarrow> BiasModel \<Rightarrow> (Label \<times> 'n) list \<Rightarrow> (Label \<times> 'n) list option" where
  "probabilities ar model probs =
     (case scoresOf (labels model) probs of
        None \<Rightarrow> None
      | Some ps \<Rightarrow> Some (sortByScore ar ps))"

record 'n Response =
  r_label :: "Label option"
  r_probabilities :: "(Label \<times> 'n) list option"
  r_trainedOn :: nat
  r_labels :: "Label list"

datatype 'n Reply = MissingText | Result "'n Response"

text \<open>\<open>!text || !text.trim()\<close>: the text is empty or all white space.\<close>

definition blank :: "jstring \<Rightarrow> bool" where
  "blank txt = list_all isSpace txt"

definition respond :: "'n::linorder arith \<Rightarrow> (jstring \<Rightarrow> jstring) \<Rightarrow> BiasModel \<Rightarrow> jstring \<Rightarrow> 'n Reply" where
  "respond ar lc model txt =
     (if blank txt then MissingText
      else (let p = predict ar lc model txt
            in Result \<lparr>r_label = p_label p, r_probabilities = probabilities ar model (p_probs p),
                 r_trainedOn = trainedOn model, r_labels = labels model\<rparr>))"

section \<open>The specification's formulas\<close>

text \<open>
  The log-score as the specification writes it, a real number: the smoothed prior plus,
  for every distinct token of the query, the smoothed likelihood, with \<open>N\<close> the documents
  of all three labels and \<open>V = max(1, vocabulary size)\<close>.
\<close>

definition specLogScore :: "(jstring \<Rightarrow> jstring) \<Rightarrow> BiasModel \<Rightarrow> jstring \<Rightarrow> Label \<Rightarrow> real" where
  "specLogScore lc m txt l =
     ln ((real (docCount m l) + 1) /
         (real (docCount m Neutral + docCount m SlightlyBiased + docCount m HighlyBiased) + 3))
     + (\<Sum>t\<in>set (tokenize lc txt).
          ln ((real (getOrZero (tokenCounts m l) t) + 1) /
              (real (totalTokens m l) + real (max 1 (length (vocab m))))))"

text \<open>The position of a label in the fixed order of the labels.\<close>

fun labelRank :: "Label \<Rightarrow> nat" where
  "labelRank Neutral = 0"
| "labelRank SlightlyBiased = 1"
| "labelRank HighlyBiased = 2"

text \<open>
  The training row and the two query texts of the properties that are evaluated in the
  arithmetic of the doubles: the texts have the same three tokens, in different orders.
\<close>

definition appleRows :: "DatasetRow list" where
  "appleRows = [\<lparr>row_text = js ''apple cherry apple'', row_label = SlightlyBiased\<rparr>]"

definition appleModel :: BiasModel where
  "appleModel = trainNaiveBayes asciiLower appleRows"

section \<open>The CSV parser\<close>

text \<open>
  \<open>parseCSV\<close>, lines 189 to 244 of the bias route. The loop reads the text from left to right; its state is the field
  and the row being built, the finished rows and the quoting flag. The loop looks one
  unit ahead only after a quote inside a quoted field, where the end of the text reads
  as \<open>undefined\<close>, which is no quote.
\<close>

definition dquote :: nat where
  "dquote = 34"

definition comma :: nat where
  "comma = 44"

definition lf :: nat where
  "lf = 10"

definition cr :: nat where
  "cr = 13"

record CsvState =
  cs_field :: jstring
  cs_row :: "jstring list"
  cs_rows :: "jstring list list"
  cs_inQuotes :: bool

fun parseLoop :: "jstring \<Rightarrow> CsvState \<Rightarrow> CsvState" where
  "parseLoop [] st = st"
| "parseLoop (c # cs) st =
     (if cs_inQuotes st then
        (if c = dquote then
           (case cs of
              [] \<Rightarrow> parseLoop cs (st\<lparr>cs_inQuotes := False\<rparr>)
            | d # ds \<Rightarrow>
                if d = dquote then parseLoop ds (st\<lparr>cs_field := cs_field st @ [dquote]\<rparr>)
                else parseLoop cs (st\<lparr>cs_inQuotes := False\<rparr>))
         else parseLoop cs (st\<lparr>cs_field := cs_field st @ [c]\<rparr>))
      else
        (if c = dquote then parseLoop cs (st\<lparr>cs_inQuotes := True\<rparr>)
         else if c = comma then
           parseLoop cs (st\<lparr>cs_row := cs_row st @ [cs_field st], cs_field := []\<rparr>)
         else if c = lf then
           parseLoop cs (st\<lparr>cs_rows := cs_rows st @ [cs_row st @ [cs_field st]], cs_row := [],
                          cs_field := []\<rparr>)
         else if c = cr then parseLoop cs st
         else parseLoop cs (st\<lparr>cs_field := cs_field st @ [c]\<rparr>)))"

definition csvInit :: CsvState where
  "csvInit = \<lparr>cs_field = [], cs_row = [], cs_rows = [], cs_inQuotes = False\<rparr>"

definition parseCSV :: "jstring \<Rightarrow> jstring list list" where
  "parseCSV txt =
     (let st = parseLoop txt csvInit;
          rows = cs_rows st @ [cs_row st @ [cs_field st]]
      in if rows \<noteq> [] \<and> length (last rows) = 1 \<and> last rows ! 0 = [] then butlast rows else rows)"

text \<open>
  Writing a table as CSV text, to state what the parser reads back: a cell is written
  plain or quoted (with every quote doubled), the cells of a row are joined by commas,
  and every row ends with the line terminator \<open>nl\<close>.
\<close>

datatype cell = Plain jstring | Quoted jstring

fun cellValue :: "cell \<Rightarrow> jstring" where
  "cellValue (Plain f) = f"
| "cellValue (Quoted f) = f"

definition plainUnit :: "nat \<Rightarrow> bool" where
  "plainUnit c = (c \<noteq> dquote \<and> c \<noteq> comma \<and> c \<noteq> lf \<and> c \<noteq> cr)"

fun wellFormed :: "cell \<Rightarrow> bool" where
  "wellFormed (Plain f) = list_all plainUnit f"
| "wellFormed (Quoted f) = True"

definition escapeQuotes :: "jstring \<Rightarrow> jstring" where
  "escapeQuotes f = concat (map (\<lambda>c. if c = dquote then [dquote, dquote] else [c]) f)"

fun writeCell :: "cell \<Rightarrow> jstring" where
  "writeCell (Plain f) = f"
| "writeCell (Quoted f) = [dquote] @ escapeQuotes f @ [dquote]"

fun writeRow :: "cell list \<Rightarrow> jstring" where
  "writeRow [] = []"
| "writeRow [c] = writeCell c"
| "writeRow (c # cs) = writeCell c @ [comma] @ writeRow cs"

definition writeCSV :: "jstring \<Rightarrow> cell list list \<Rightarrow> jstring" where
  "writeCSV nl table = concat (map (\<lambda>r. writeRow r @ nl) table)"

definition wellFormedTable :: "cell list list \<Rightarrow> bool" where
  "wellFormedTable table = list_all (\<lambda>r. r \<noteq> [] \<and> list_all wellFormed r) table"

section \<open>The model cache\<close>

text \<open>
  \<open>getModel\<close>, lines 348 to 362 of the bias route, with the two variables \<open>cachedModel\<close> and
  \<open>buildingPromise\<close> of lines 18 and 19. \<open>getModel\<close> has no \<open>await\<close>: a call runs from its first line to its \<open>return\<close> without
  another task in between, and so do the handlers that \<open>then\<close> and \<open>catch\<close> attach to a
  build. The cache is therefore a state machine whose steps are a call of \<open>getModel\<close>,
  the success of a pending build and the failure of a pending build. A build is named
  by its number; \<open>started\<close> counts the calls of \<open>buildModel\<close>, and \<open>pending\<close> holds the
  builds that have not settled yet. A call returns the cached model, or the promise of
  the build it joins.
\<close>

record 'm CacheState =
  cachedModel :: "'m option"
  buildingPromise :: "nat option"
  pending :: "nat list"
  started :: nat

datatype 'm outcome = Ready 'm | Awaiting nat

definition cacheInit :: "'m CacheState" where
  "cacheInit = \<lparr>cachedModel = None, buildingPromise = None, pending = [], started = 0\<rparr>"

definition getModel :: "'m CacheState \<Rightarrow> 'm outcome \<times> 'm CacheState" where
  "getModel st =
     (case cachedModel st of
        Some m \<Rightarrow> (Ready m, st)
      | None \<Rightarrow>
          (case buildingPromise st of
             Some p \<Rightarrow> (Awaiting p, st)
           | None \<Rightarrow>
               (Awaiting (started st),
                st\<lparr>buildingPromise := Some (started st), pending := started st # pending st,
                   started := Suc (started st)\<rparr>)))"

definition onResolved :: "nat \<Rightarrow> 'm \<Rightarrow> 'm CacheState \<Rightarrow> 'm CacheState" where
  "onResolved p m st =
     st\<lparr>cachedModel := Some m, buildingPromise := None, pending := removeAll p (pending st)\<rparr>"

definition onRejected :: "nat \<Rightarrow> 'm CacheState \<Rightarrow> 'm CacheState" where
  "onRejected p st = st\<lparr>buildingPromise := None, pending := removeAll p (pending st)\<rparr>"

datatype 'm event = Call | Resolve nat 'm | Reject nat

text \<open>A build settles once, and only while it is pending.\<close>

fun step :: "'m event \<Rightarrow> 'm CacheState \<Rightarrow> 'm CacheState option" where
  "step Call st = Some (snd (getModel st))"
| "step (Resolve p m) st = (if p \<in> set (pending st) then Some (onResolved p m st) else None)"
| "step (Reject p) st = (if p \<in> set (pending st) then Some (onRejected p st) else None)"

fun run :: "'m event list \<Rightarrow> 'm CacheState \<Rightarrow> 'm CacheState option" where
  "run [] st = Some st"
| "run (e # es) st = (case step e st of None \<Rightarrow> None | Some st' \<Rightarrow> run es st')"

definition reachable :: "'m CacheState \<Rightarrow> bool" where
  "reachable st = (\<exists>es. run es cacheInit = Some st)"

text \<open>The invariant of the cache: the marker names the one pending build, if any.\<close>

definition cacheInv :: "'m CacheState \<Rightarrow> bool" where
  "cacheInv st =
     ((case buildingPromise st of None \<Rightarrow> pending st = [] | Some p \<Rightarrow> pending st = [p] \<and> p < started st)
      \<and> (cachedModel st \<noteq> None \<longrightarrow> buildingPromise st = None))"

section \<open>The extractive summarizer\<close>

text \<open>
  The summary route, \<open>src/unnamed/part_000\<close>: \<open>extractiveSummary\<close> (lines 49 to 180) with its
  local helpers, and \<open>truncate\<close> (182 to 187). The route calls \<open>extractiveSummary(text, 5)\<close>
  when no provider is configured or the provider fails. \<open>shortSummary\<close> is the branch
  \<open>if (isShort)\<close>, \<open>standardSummary\<close> the rest of the function.
\<close>

definition ellipsis :: nat where
  "ellipsis = 8230"

text \<open>\<open>s.lastIndexOf(c)\<close> for a single unit: the last index of \<open>c\<close>, or \<open>-1\<close>.\<close>

fun lastIndexFrom :: "nat \<Rightarrow> jstring \<Rightarrow> nat \<Rightarrow> int \<Rightarrow> int" where
  "lastIndexFrom c [] i found = found"
| "lastIndexFrom c (u # us) i found = lastIndexFrom c us (Suc i) (if u = c then int i else found)"

definition lastIndexOf :: "jstring \<Rightarrow> nat \<Rightarrow> int" where
  "lastIndexOf s c = lastIndexFrom c s 0 (- 1)"

definition truncate :: "jstring \<Rightarrow> nat \<Rightarrow> jstring" where
  "truncate s mx =
     (if length s \<le> mx then s
      else (let cut = take mx s;
                lastBreak = max (max (lastIndexOf cut 46) (lastIndexOf cut 44)) (lastIndexOf cut 32)
            in trim (if 40 < lastBreak then take (nat lastBreak) cut else cut) @ [ellipsis]))"

definition stopSummary :: "jstring list" where
  "stopSummary = map js
     [''the'', ''is'', ''in'', ''and'', ''to'', ''of'', ''a'', ''for'', ''on'', ''that'', ''with'', ''as'',
      ''by'', ''at'', ''from'', ''be'', ''this'', ''it'', ''an'', ''are'', ''was'', ''were'', ''or'',
      ''but'', ''not'', ''has'', ''have'', ''had'', ''their'', ''they'', ''his'', ''her'', ''its'',
      ''you'', ''your'', ''our'', ''them'', ''who'', ''what'', ''when'', ''where'', ''why'', ''how'']"

definition tokenizeSummary :: "(jstring \<Rightarrow> jstring) \<Rightarrow> jstring \<Rightarrow> jstring list" where
  "tokenizeSummary lc s =
     filter (\<lambda>t. 3 \<le> length t \<and> t \<notin> set stopSummary)
       (matchAll (Plus (Chr isLowerOrDigit)) (start (lc s)))"

definition countToken :: "(jstring \<times> nat) list \<Rightarrow> jstring \<Rightarrow> (jstring \<times> nat) list" where
  "countToken tf t = mapSet tf t (getOrZero tf t + 1)"

definition topKeywords :: "(jstring \<Rightarrow> jstring) \<Rightarrow> jstring \<Rightarrow> nat \<Rightarrow> jstring list" where
  "topKeywords lc s n =
     (let tf = foldl countToken [] (tokenizeSummary lc s)
      in map fst (take n (sort_key (\<lambda>e. - int (snd e)) tf)))"

text \<open>
  The regular expressions of \<open>extractNumbersDates\<close>, as the source writes them:
  \<open>\b(?:\d{1,3}(?:,\d{3})+|\d+)(?:\.\d+)?%?\b\<close> for the numbers, and for the dates, under
  the flag \<open>i\<close>, a year of four digits or the name of a month, long or short.
\<close>

definition digit :: re where
  "digit = Chr isDigit"

definition numsRe :: re where
  "numsRe =
     seq [WordB,
          Alt (Cat (Cat digit (Opt (Cat digit (Opt digit))))
                   (Plus (seq [lit '','', digit, digit, digit])))
              (Plus digit),
          Opt (Cat (lit ''.'') (Plus digit)),
          Opt (lit ''%''),
          WordB]"

definition datesRe :: re where
  "datesRe =
     seq [WordB,
          alts [seq [digit, digit, digit, digit],
                Cat (litI ''Jan'') (Opt (litI ''uary'')),
                Cat (litI ''Feb'') (Opt (litI ''ruary'')),
                Cat (litI ''Mar'') (Opt (litI ''ch'')),
                Cat (litI ''Apr'') (Opt (litI ''il'')),
                litI ''May'',
                Cat (litI ''Jun'') (Opt (litI ''e'')),
                Cat (litI ''Jul'') (Opt (litI ''y'')),
                Cat (litI ''Aug'') (Opt (litI ''ust'')),
                Cat (litI ''Sep'') (Opt (Alt (litI ''t.'') (litI ''tember''))),
                Cat (litI ''Oct'') (Opt (litI ''ober'')),
                Cat (litI ''Nov'') (Opt (litI ''ember'')),
                Cat (litI ''Dec'') (Opt (litI ''ember''))],
          WordB]"

definition extractNumbersDates :: "jstring \<Rightarrow> jstring list" where
  "extractNumbersDates s =
     (let nums = matchAll numsRe (start s);
          dates = matchAll datesRe (start s)
      in newSet (nums @ dates))"

definition spaces :: re where
  "spaces = Plus (Chr isSpace)"

text \<open>\<open>(?<=[.!?])\s+|(?<=;)\s+|(?<=:)\s+\<close>\<close>

definition sentenceRe :: re where
  "sentenceRe =
     alts [Cat (Behind (\<lambda>c. c = 46 \<or> c = 33 \<or> c = 63)) spaces,
           Cat (Behind (\<lambda>c. c = 59)) spaces,
           Cat (Behind (\<lambda>c. c = 58)) spaces]"

definition sentencesOf :: "jstring \<Rightarrow> jstring list" where
  "sentencesOf normalized =
     (let sentenceSplit = filter (\<lambda>x. x \<noteq> []) (splitBy sentenceRe normalized)
      in if 0 < length sentenceSplit then sentenceSplit else [normalized])"

definition titleFromText :: "(jstring \<Rightarrow> jstring) \<Rightarrow> jstring list \<Rightarrow> jstring \<Rightarrow> jstring" where
  "titleFromText lc sentences s =
     (let base = (case sentences of [] \<Rightarrow> s | b # bs \<Rightarrow> if b = [] then s else b);
          tokens = take 12 (tokenizeSummary lc base)
      in if length tokens = 0 then truncate base 80
         else replaceFirst (Cat Bol (Chr isWordUnit)) (map upperUnit) (start (joinWith (js '' '') tokens)))"

function padBullets :: "nat \<Rightarrow> jstring list \<Rightarrow> jstring list" where
  "padBullets n bullets =
     (if length bullets < n then padBullets n (bullets @ [js ''- Context: brief update'']) else bullets)"
  by pat_completeness auto
termination
  by (relation "measure (\<lambda>(n, bullets). n - length bullets)") auto

definition shortSummary :: "(jstring \<Rightarrow> jstring) \<Rightarrow> jstring \<Rightarrow> jstring list \<Rightarrow> nat \<Rightarrow> jstring" where
  "shortSummary lc normalized sentences maxPoints =
     (let keywords = topKeywords lc normalized 6;
          facts = take 6 (extractNumbersDates normalized);
          topic = titleFromText lc sentences normalized;
          bullets = filter (\<lambda>b. b \<noteq> [])
            [js ''- Topic: '' @ truncate topic 90,
             if 0 < length keywords then js ''- Key terms: '' @ joinWith (js '', '') (take 5 keywords) else [],
             if 0 < length facts then js ''- Facts: '' @ joinWith (js '', '') facts else [],
             js ''- Summary: '' @ truncate normalized 160]
      in joinWith [10] (take maxPoints (padBullets (min 3 maxPoints) bullets)))"

definition canonical :: "(jstring \<Rightarrow> jstring) \<Rightarrow> jstring \<Rightarrow> jstring" where
  "canonical lc s = lc (trim (replaceAll spaces (js '' '') (start s)))"

text \<open>
  The sentences are numbered by their place; a chosen number is a place of \<open>sentences\<close>,
  so \<open>sentences[i]\<close> is always a sentence.
\<close>

definition standardSummary :: "(jstring \<Rightarrow> jstring) \<Rightarrow> jstring \<Rightarrow> jstring list \<Rightarrow> nat \<Rightarrow> jstring" where
  "standardSummary lc normalized sentences maxPoints =
     (let freq = foldl (\<lambda>freq s. foldl countToken freq (tokenizeSummary lc s)) [] sentences;
          scored = map (\<lambda>(idx, s). (idx, s, foldl (\<lambda>score t. score + getOrZero freq t) 0 (tokenizeSummary lc s)))
                     (enumerate 0 sentences);
          sorted = sort_key (\<lambda>(idx, s, score). - int score) scored;
          targetCount = min maxPoints (max 3 ((length sentences + 3) div 4));
          chosenIdxs = sort (map fst (take targetCount sorted));
          bullets = map (\<lambda>i. js ''- '' @ truncate (sentences ! i) 180) chosenIdxs;
          result = joinWith [10] bullets
      in if canonical lc result = canonical lc normalized
         then joinWith [10] [js ''- Summary:'', js ''- '' @ truncate normalized 200]
         else result)"

definition extractiveSummary :: "(jstring \<Rightarrow> jstring) \<Rightarrow> jstring \<Rightarrow> nat \<Rightarrow> jstring" where
  "extractiveSummary lc txt maxPoints =
     (let normalized = trim (replaceAll spaces (js '' '') (start txt))
      in if normalized = [] then js ''- No content provided.''
         else (let sentences = sentencesOf normalized;
                   isShort = (length normalized < 280 \<or> length sentences \<le> 2)
               in if isShort then shortSummary lc normalized sentences maxPoints
                  else standardSummary lc normalized sentences maxPoints))"

text \<open>
  A text of three bullets, in the shape the short path itself writes: the topic, the key
  terms and a summary line that repeats the text and ends with the ellipsis.
\<close>

definition echoText :: jstring where
  "echoText =
     js ''- Topic: Topic'' @ [10] @
     js ''- Key terms: topic, key, terms, summary'' @ [10] @
     js ''- Summary: - Topic: Topic - Key terms: topic, key, terms, summary - Summary: '' @
     js ''- Topic: Topic - Key terms: topic, key, terms, summary - Summary: '' @
     js ''- Topic: Topic - Key terms:'' @ [ellipsis]"

text \<open>The same text with every line break replaced by a space.\<close>

definition echoNormalized :: jstring where
  "echoNormalized =
     js ''- Topic: Topic - Key terms: topic, key, terms, summary - Summary: '' @
     js ''- Topic: Topic - Key terms: topic, key, terms, summary - Summary: '' @
     js ''- Topic: Topic - Key terms: topic, key, terms, summary - Summary: '' @
     js ''- Topic: Topic - Key terms:'' @ [ellipsis]"

section \<open>The invariants of the training loop\<close>

definition docSum :: "TrainState \<Rightarrow> nat" where
  "docSum st = ts_docCount st Neutral + ts_docCount st SlightlyBiased + ts_docCount st HighlyBiased"

definition vocabInv :: "TrainState \<Rightarrow> bool" where
  "vocabInv st =
     ((\<forall>t. t \<in> set (ts_vocab st) \<longleftrightarrow> (\<exists>l. map_of (ts_tokenCounts st l) t \<noteq> None))
      \<and> (\<forall>l t. map_of (ts_tokenCounts st l) t \<noteq> Some 0))"

section \<open>Properties\<close>

subsection \<open>Sets, maps and sums\<close>

lemma set_foldl_setAdd: "set (foldl setAdd acc xs) = set acc \<union> set xs"
  by (induction xs arbitrary: acc) (auto simp: setAdd_def)

lemma distinct_foldl_setAdd: "distinct acc \<Longrightarrow> distinct (foldl setAdd acc xs)"
  by (induction xs arbitrary: acc) (auto simp: setAdd_def)

lemma set_newSet: "set (newSet xs) = set xs"
  by (simp add: newSet_def set_foldl_setAdd)

lemma distinct_newSet: "distinct (newSet xs)"
  by (simp add: newSet_def distinct_foldl_setAdd)

lemma map_of_mapSet: "map_of (mapSet m k v) = (map_of m)(k \<mapsto> v)"
  by (induction m) (auto simp: fun_eq_iff)

lemma exact_ops:
  "numN exact n = real n" "addN exact a b = a + b" "subN exact a b = a - b" "divN exact a b = a / b"
  "logN exact a = ln a" "expN exact a = exp a"
  by (simp_all add: exact_def)

lemma doubles_ops:
  "numN doubles n = toDouble (real n)" "addN doubles a b = toDouble (a + b)"
  "subN doubles a b = toDouble (a - b)" "divN doubles a b = toDouble (a / b)"
  "logN doubles a = toDouble (ln a)" "expN doubles a = toDouble (exp a)"
  by (simp_all add: doubles_def)

lemma foldl_tokenStep:
  "foldl (tokenStep exact m l) a toks =
     a + sum_list (map (\<lambda>t. ln ((real (getOrZero (tokenCounts m l) t) + 1) / real (likelihoodDenominator m l))) toks)"
  by (induction toks arbitrary: a) (simp_all add: tokenStep_def Let_def exact_ops add.commute)

lemma logScore_sum:
  "distinct toks \<Longrightarrow> logScore exact m toks l =
     ln ((real (docCount m l) + 1) / real (priorDenominator m)) +
     (\<Sum>t\<in>set toks. ln ((real (getOrZero (tokenCounts m l) t) + 1) / real (likelihoodDenominator m l)))"
  by (simp add: logScore_def foldl_tokenStep sum.distinct_set_conv_list exact_ops add.commute)

lemma logScores_three:
  "labels m = [Neutral, SlightlyBiased, HighlyBiased] \<Longrightarrow>
   logScores ar m toks = [(Neutral, logScore ar m toks Neutral), (SlightlyBiased, logScore ar m toks SlightlyBiased),
      (HighlyBiased, logScore ar m toks HighlyBiased)]"
  by (simp add: logScores_def)

lemma tokenStep_other_ops: "tokenStep (ar\<lparr>subN := sub, expN := ex\<rparr>) m l = tokenStep ar m l"
  by (intro ext) (simp add: tokenStep_def)

lemma logScores_other_ops: "logScores (ar\<lparr>subN := sub, expN := ex\<rparr>) m toks = logScores ar m toks"
  by (simp add: logScores_def logScore_def tokenStep_other_ops)

lemma bestLabel_three:
  "bestLabel [Neutral, SlightlyBiased, HighlyBiased] [(Neutral, a), (SlightlyBiased, b), (HighlyBiased, c)] =
     Some (if b \<le> a \<and> c \<le> a then Neutral else if c \<le> b then SlightlyBiased else HighlyBiased)"
  by (auto simp: bestLabel_def bestStep_def greaterThan_def mapGet_def)

lemma expScores_three:
  "expScores exact [(Neutral, a), (SlightlyBiased, b), (HighlyBiased, c)] =
     [(Neutral, exp (a - max (max a b) c)), (SlightlyBiased, exp (b - max (max a b) c)),
      (HighlyBiased, exp (c - max (max a b) c))]"
  by (simp add: expScores_def Let_def exact_ops)










lemma totalDocs_three:
  "labels m = [Neutral, SlightlyBiased, HighlyBiased] \<Longrightarrow>
   totalDocs m = docCount m Neutral + docCount m SlightlyBiased + docCount m HighlyBiased"
  by (simp add: totalDocs_def)

lemma logScore_spec:
  "labels m = [Neutral, SlightlyBiased, HighlyBiased] \<Longrightarrow>
   logScore exact m (newSet (tokenize lc txt)) l = specLogScore lc m txt l"
  by (simp add: logScore_sum distinct_newSet set_newSet specLogScore_def priorDenominator_def
      likelihoodDenominator_def vocabSize_def totalDocs_three)

lemma tokenStep_absent:
  "mapGet (tokenCounts m l) t = None \<Longrightarrow>
   tokenStep exact m l ll t = ll + ln (1 / (real (totalTokens m l) + real (max 1 (length (vocab m)))))"
  by (simp add: tokenStep_def getOrZero_def likelihoodDenominator_def vocabSize_def exact_ops)

lemma predict_any:
  "labels m = [Neutral, SlightlyBiased, HighlyBiased] \<Longrightarrow>
   predict ar lc m txt =
     \<lparr>p_label = bestLabel [Neutral, SlightlyBiased, HighlyBiased]
         [(Neutral, logScore ar m (newSet (tokenize lc txt)) Neutral),
          (SlightlyBiased, logScore ar m (newSet (tokenize lc txt)) SlightlyBiased),
          (HighlyBiased, logScore ar m (newSet (tokenize lc txt)) HighlyBiased)],
      p_probs = softmaxLogScores ar
         [(Neutral, logScore ar m (newSet (tokenize lc txt)) Neutral),
          (SlightlyBiased, logScore ar m (newSet (tokenize lc txt)) SlightlyBiased),
          (HighlyBiased, logScore ar m (newSet (tokenize lc txt)) HighlyBiased)]\<rparr>"
  by (simp add: predict_def Let_def logScores_three)

lemma predict_three:
  "labels m = [Neutral, SlightlyBiased, HighlyBiased] \<Longrightarrow>
   predict exact lc m txt =
     \<lparr>p_label = bestLabel [Neutral, SlightlyBiased, HighlyBiased]
         [(Neutral, specLogScore lc m txt Neutral), (SlightlyBiased, specLogScore lc m txt SlightlyBiased),
          (HighlyBiased, specLogScore lc m txt HighlyBiased)],
      p_probs = softmaxLogScores exact
         [(Neutral, specLogScore lc m txt Neutral), (SlightlyBiased, specLogScore lc m txt SlightlyBiased),
          (HighlyBiased, specLogScore lc m txt HighlyBiased)]\<rparr>"
  by (simp add: predict_def Let_def logScores_three logScore_spec)

lemma rank_cases: "(\<forall>l. P l) = (P Neutral \<and> P SlightlyBiased \<and> P HighlyBiased)"
  by (metis Label.exhaust)

lemma softmax_three:
  "softmaxLogScores exact [(Neutral, a), (SlightlyBiased, b), (HighlyBiased, c)] =
     (let mx = max (max a b) c; z = exp (a - mx) + exp (b - mx) + exp (c - mx)
      in [(Neutral, exp (a - mx) / z), (SlightlyBiased, exp (b - mx) / z), (HighlyBiased, exp (c - mx) / z)])"
proof -
  have "exp (a - max (max a b) c) + exp (b - max (max a b) c) + exp (c - max (max a b) c) > 0"
    by (intro add_pos_pos) simp_all
  then show ?thesis
    by (simp add: softmaxLogScores_def expScores_three normalizeExps_def expSum_def Let_def exact_ops)
qed



lemma insertByScore_exact: "insertByScore exact a bs = insort_key (\<lambda>p. - snd p) a bs"
  by (induction bs) (auto simp add: compareScores_def exact_ops)

lemma sortByScore_exact: "sortByScore exact ps = sort_key (\<lambda>p. - snd p) ps"
proof -
  have "insertByScore exact = insort_key (\<lambda>p. - snd p)"
    by (intro ext) (rule insertByScore_exact)
  then show ?thesis by (simp add: sortByScore_def sort_key_def)
qed




lemma trainNaiveBayes_Nil:
  "trainNaiveBayes lc [] =
     \<lparr>labels = [Neutral, SlightlyBiased, HighlyBiased], vocab = [], docCount = (\<lambda>l. 0),
      tokenCounts = (\<lambda>l. []), totalTokens = (\<lambda>l. 0), trainedOn = 0\<rparr>"
  by (simp add: trainNaiveBayes_def trainInit_def)

lemma specLogScore_Nil: "specLogScore lc (trainNaiveBayes lc' []) txt l = ln (1 / 3)"
  by (simp add: specLogScore_def trainNaiveBayes_Nil getOrZero_def mapGet_def)

lemma denominators_positive:
  "0 < likelihoodDenominator m l" "labels m \<noteq> [] \<Longrightarrow> 0 < priorDenominator m"
  by (auto simp add: likelihoodDenominator_def vocabSize_def priorDenominator_def max_def)

lemma set_setAdd: "set (setAdd xs x) = insert x (set xs)"
  by (auto simp: setAdd_def)

lemma vocabInv_docCount: "vocabInv (st\<lparr>ts_docCount := d\<rparr>) = vocabInv st"
  by (simp add: vocabInv_def)

lemma trainToken_docCount: "ts_docCount (trainToken l st t) = ts_docCount st"
  by (simp add: trainToken_def)

lemma foldl_trainToken_docCount: "ts_docCount (foldl (trainToken l) st toks) = ts_docCount st"
  by (induction toks arbitrary: st) (simp_all add: trainToken_docCount)

lemma trainRow_docSum: "docSum (trainRow lc st row) = Suc (docSum st)"
  by (cases "row_label row") (simp_all add: trainRow_def Let_def docSum_def foldl_trainToken_docCount)

lemma foldl_trainRow_docSum: "docSum (foldl (trainRow lc) st rows) = docSum st + length rows"
  by (induction rows arbitrary: st) (simp_all add: trainRow_docSum)

lemma trainToken_vocabInv:
  assumes "vocabInv st"
  shows "vocabInv (trainToken l st t)"
proof -
  have a: "\<And>u. u \<in> set (ts_vocab st) \<longleftrightarrow> (\<exists>k. map_of (ts_tokenCounts st k) u \<noteq> None)"
    and b: "\<And>k u. map_of (ts_tokenCounts st k) u \<noteq> Some 0"
    using assms by (simp_all add: vocabInv_def)
  have v: "set (ts_vocab (trainToken l st t)) = insert t (set (ts_vocab st))"
    by (simp add: trainToken_def set_setAdd)
  have c: "\<And>k u. map_of (ts_tokenCounts (trainToken l st t) k) u =
      (if k = l \<and> u = t then Some (getOrZero (ts_tokenCounts st l) t + 1)
       else map_of (ts_tokenCounts st k) u)"
    by (simp add: trainToken_def map_of_mapSet)
  have "\<And>u. u \<in> set (ts_vocab (trainToken l st t)) \<longleftrightarrow>
      (\<exists>k. map_of (ts_tokenCounts (trainToken l st t) k) u \<noteq> None)"
  proof -
    fix u
    show "u \<in> set (ts_vocab (trainToken l st t)) \<longleftrightarrow>
      (\<exists>k. map_of (ts_tokenCounts (trainToken l st t) k) u \<noteq> None)"
    proof (cases "u = t")
      case True
      have "map_of (ts_tokenCounts (trainToken l st t) l) t \<noteq> None" by (simp add: c)
      then show ?thesis using True v by blast
    next
      case False
      then show ?thesis by (simp add: v c a)
    qed
  qed
  moreover have "\<And>k u. map_of (ts_tokenCounts (trainToken l st t) k) u \<noteq> Some 0"
    by (simp add: c b)
  ultimately show ?thesis by (simp add: vocabInv_def)
qed

lemma foldl_trainToken_vocabInv: "vocabInv st \<Longrightarrow> vocabInv (foldl (trainToken l) st toks)"
  by (induction toks arbitrary: st) (simp_all add: trainToken_vocabInv)

lemma trainRow_vocabInv: "vocabInv st \<Longrightarrow> vocabInv (trainRow lc st row)"
  by (simp add: trainRow_def Let_def foldl_trainToken_vocabInv vocabInv_docCount)

lemma foldl_trainRow_vocabInv: "vocabInv st \<Longrightarrow> vocabInv (foldl (trainRow lc) st rows)"
  by (induction rows arbitrary: st) (simp_all add: trainRow_vocabInv)

lemma vocabInv_init: "vocabInv trainInit"
  by (simp add: vocabInv_def trainInit_def)

lemma logScore_set:
  "distinct xs \<Longrightarrow> distinct ys \<Longrightarrow> set xs = set ys \<Longrightarrow> logScore exact m xs = logScore exact m ys"
  by (intro ext) (simp add: logScore_sum)

lemma trained_labels: "labels (trainNaiveBayes lc rows) = [Neutral, SlightlyBiased, HighlyBiased]"
  by (simp add: trainNaiveBayes_def Let_def)

lemma trained_vocabInv: "vocabInv (foldl (trainRow lc) trainInit rows)"
  by (simp add: foldl_trainRow_vocabInv vocabInv_init)

lemma trained_absent:
  "t \<notin> set (vocab (trainNaiveBayes lc rows)) \<Longrightarrow> mapGet (tokenCounts (trainNaiveBayes lc rows) l) t = None"
  using trained_vocabInv [of lc rows]
  by (simp add: vocabInv_def trainNaiveBayes_def Let_def mapGet_def)


lemma label_three:
  assumes lm: "labels m = [Neutral, SlightlyBiased, HighlyBiased]"
  shows "\<exists>b. p_label (predict ar lc m txt) = Some b
       \<and> (\<forall>l. logScore ar m (newSet (tokenize lc txt)) l \<le> logScore ar m (newSet (tokenize lc txt)) b)
       \<and> (\<forall>l. labelRank l < labelRank b \<longrightarrow>
              logScore ar m (newSet (tokenize lc txt)) l < logScore ar m (newSet (tokenize lc txt)) b)"
  by (auto simp add: predict_any [OF lm] bestLabel_three rank_cases)

lemma predict_Nil:
  "predict exact lc (trainNaiveBayes lc' []) txt =
     \<lparr>p_label = Some Neutral,
      p_probs = [(Neutral, 1 / 3), (SlightlyBiased, 1 / 3), (HighlyBiased, 1 / 3)]\<rparr>"
  by (simp add: predict_three [OF trained_labels] specLogScore_Nil bestLabel_three softmax_three)

lemma tokens_calm:
  "tokenize asciiLower (js ''calm calm report'') = [js ''calm'', js ''calm'', js ''report'']"
  "tokenize asciiLower (js ''Report: the calm'') = [js ''report'', js ''calm'']"
  "tokenize asciiLower (js ''the calm report'') = [js ''calm'', js ''report'']"
  by (simp_all add: tokenize_def js_def asciiLower_def lowerUnit_def Plus_def matchAll.simps
      matchAt_def start_def pos_def rest_def step1_def isLower_def stop_def)

subsection \<open>The arithmetic of the doubles\<close>

text \<open>
  \<open>toDouble\<close> at a number whose binary exponent is known: scaled by a power of two into
  the range of the 53-bit integers, the number is rounded to the nearest integer.
\<close>

lemma toDouble_at:
  fixes k :: nat
  assumes "2 ^ 52 \<le> \<bar>x\<bar> * 2 ^ k" "\<bar>x\<bar> * 2 ^ k < 2 ^ 53" "k \<le> 1074"
  shows "toDouble x = sgn x * of_int (rne (\<bar>x\<bar> * 2 ^ k)) / 2 ^ k"
proof -
  have x0: "x \<noteq> 0" using assms(1) by auto
  then have ax: "0 < \<bar>x\<bar>" by simp
  have p: "(2::real) powr (52 - real k) = 2 ^ 52 / 2 ^ k"
    by (simp add: powr_diff powr_realpow)
  have q: "(2::real) powr (53 - real k) = 2 ^ 53 / 2 ^ k"
    by (simp add: powr_diff powr_realpow)
  have l: "2 powr (52 - real k) \<le> \<bar>x\<bar>"
    unfolding p using assms(1) by (simp add: field_simps)
  have u: "\<bar>x\<bar> < 2 powr (53 - real k)"
    unfolding q using assms(2) by (simp add: field_simps)
  have "\<lfloor>log 2 \<bar>x\<bar>\<rfloor> = 52 - int k"
  proof (rule floor_unique)
    have "log 2 (2 powr (52 - real k)) \<le> log 2 \<bar>x\<bar>"
      using l ax by (subst log_le_cancel_iff) simp_all
    then show "of_int (52 - int k) \<le> log 2 \<bar>x\<bar>" by simp
    have "log 2 \<bar>x\<bar> < log 2 (2 powr (53 - real k))"
      using u ax by (subst log_less_cancel_iff) simp_all
    then show "log 2 \<bar>x\<bar> < of_int (52 - int k) + 1" by simp
  qed
  then have e: "max (\<lfloor>log 2 \<bar>x\<bar>\<rfloor> - 52) (- 1074) = - int k"
    using assms(3) by simp
  have pw: "(2::real) powr of_int (- int k) = 1 / 2 ^ k"
    by (simp add: powr_minus powr_realpow field_simps)
  show ?thesis
    using x0 by (simp add: toDouble_def Let_def e pw del: of_int_minus)
qed

lemma rne_of_int: "rne (of_int z) = z"
  by (simp add: rne_def)

lemma rne_window:
  assumes "of_int m - 1 / 2 < z" "z < of_int m + 1 / 2"
  shows "rne z = m"
proof -
  have "\<lfloor>z\<rfloor> = m \<or> \<lfloor>z\<rfloor> = m - 1"
    using assms by linarith
  then show ?thesis
  proof
    assume f: "\<lfloor>z\<rfloor> = m"
    then have "z - of_int \<lfloor>z\<rfloor> < 1 / 2" using assms by simp
    then show ?thesis by (simp add: rne_def Let_def f)
  next
    assume f: "\<lfloor>z\<rfloor> = m - 1"
    then have "1 / 2 < z - of_int \<lfloor>z\<rfloor>" using assms by simp
    then show ?thesis by (simp add: rne_def Let_def f)
  qed
qed

lemma toDouble_exact:
  fixes k :: nat
  assumes "2 ^ 52 \<le> \<bar>x\<bar> * 2 ^ k" "\<bar>x\<bar> * 2 ^ k < 2 ^ 53" "k \<le> 1074"
    and "\<bar>x\<bar> * 2 ^ k = of_int z"
  shows "toDouble x = x"
proof -
  have "toDouble x = sgn x * (\<bar>x\<bar> * 2 ^ k) / 2 ^ k"
    by (simp only: toDouble_at [OF assms(1-3)] assms(4) rne_of_int)
  also have "\<dots> = sgn x * \<bar>x\<bar>" by simp
  also have "\<dots> = x" by (simp add: sgn_real_def)
  finally show ?thesis .
qed

lemma toDouble_window:
  fixes k :: nat
  assumes "2 ^ 52 < m" "m < 2 ^ 53" "k \<le> 1074"
    and "of_int m - 1 / 2 < \<bar>x\<bar> * 2 ^ k" "\<bar>x\<bar> * 2 ^ k < of_int m + 1 / 2"
  shows "toDouble x = sgn x * of_int m / 2 ^ k"
proof -
  have "(2::int) ^ 52 + 1 \<le> m" using assms(1) by simp
  then have "(of_int ((2::int) ^ 52 + 1) :: real) \<le> of_int m" by (simp only: of_int_le_iff)
  then have "(2::real) ^ 52 + 1 \<le> of_int m" by simp
  then have a: "2 ^ 52 \<le> \<bar>x\<bar> * 2 ^ k" using assms(4) by linarith
  have "m + 1 \<le> (2::int) ^ 53" using assms(2) by simp
  then have "(of_int (m + 1) :: real) \<le> of_int ((2::int) ^ 53)" by (simp only: of_int_le_iff)
  then have "of_int m + 1 \<le> (2::real) ^ 53" by simp
  then have b: "\<bar>x\<bar> * 2 ^ k < 2 ^ 53" using assms(5) by linarith
  show ?thesis
    by (simp only: toDouble_at [OF a b assms(3)] rne_window [OF assms(4,5)])
qed


lemma rne_ge_floor: "\<lfloor>z\<rfloor> \<le> rne z"
  by (simp add: rne_def Let_def)

lemma toDouble_nonneg: "0 \<le> x \<Longrightarrow> 0 \<le> toDouble x"
proof -
  assume x: "0 \<le> x"
  show ?thesis
  proof (cases "x = 0")
    case True
    then show ?thesis by (simp add: toDouble_def)
  next
    case False
    define e where "e = max (\<lfloor>log 2 \<bar>x\<bar>\<rfloor> - 52) (- 1074)"
    have "0 \<le> \<bar>x\<bar> / 2 powr of_int e" by simp
    then have "0 \<le> \<lfloor>\<bar>x\<bar> / 2 powr of_int e\<rfloor>" by simp
    then have "0 \<le> rne (\<bar>x\<bar> / 2 powr of_int e)" using rne_ge_floor order_trans by blast
    then have "0 \<le> real_of_int (rne (\<bar>x\<bar> / 2 powr of_int e)) * 2 powr of_int e" by simp
    then show ?thesis
      using x False unfolding e_def by (simp add: toDouble_def Let_def sgn_real_def)
  qed
qed


lemma exp_lower_sum: "0 \<le> x \<Longrightarrow> (\<Sum>k<n. x ^ k / fact k) \<le> exp (x::real)"
proof -
  assume x: "0 \<le> x"
  have s: "summable (\<lambda>k. x ^ k / fact k)"
    using summable_exp [of x] by (simp add: field_simps)
  have "(\<Sum>k<n. x ^ k / fact k) \<le> (\<Sum>k. x ^ k / fact k)"
    using s x by (intro sum_le_suminf) simp_all
  also have "\<dots> = exp x"
    by (simp add: exp_def field_simps)
  finally show ?thesis .
qed

lemma exp_upper_sum:
  assumes "0 \<le> x" "x \<le> 1"
  shows "exp (x::real) \<le> (\<Sum>k<n. x ^ k / fact k) + 3 * x ^ n / fact n"
proof -
  from Maclaurin_exp_le [of x n] obtain t where
    t: "\<bar>t\<bar> \<le> \<bar>x\<bar>" "exp x = (\<Sum>m<n. (x ^ m) / fact m) + (exp t / fact n) * x ^ n"
    by blast
  have "t \<le> 1" using t(1) assms by linarith
  then have "exp t \<le> exp 1" by simp
  also have "\<dots> \<le> 3" by (rule exp_le)
  finally have "exp t \<le> 3" .
  then have "(exp t / fact n) * x ^ n \<le> (3 / fact n) * x ^ n"
    using assms(1) by (intro mult_right_mono divide_right_mono) simp_all
  then show ?thesis using t(2) by simp
qed

lemma hornerExp_sum: "hornerExp x j acc = (\<Sum>k<j. x ^ k / fact k) + x ^ j / fact j * acc"
proof (induction j arbitrary: acc)
  case 0
  show ?case by simp
next
  case (Suc j)
  have "x ^ j / fact j * (x / real (Suc j) * acc) = x ^ Suc j / fact (Suc j) * acc"
    by (simp add: mult_ac)
  thus ?case by (simp add: Suc.IH distrib_left del: fact_Suc power_Suc of_nat_Suc)
qed

lemma horner_below_2: "hornerExp (24973259072661435 / 36028797018963968) 18 3 \<le> 2"
  by (simp add: eval_nat_numeral)

lemma horner_above_2: "2 \<le> hornerExp (24973259072661437 / 36028797018963968) 18 0"
  by (simp add: eval_nat_numeral)

lemma ln2_lower: "24973259072661435 / 36028797018963968 \<le> ln (2::real)"
proof -
  let ?x = "24973259072661435 / 36028797018963968 :: real"
  have "exp ?x \<le> (\<Sum>k<18. ?x ^ k / fact k) + 3 * ?x ^ 18 / fact 18"
    by (rule exp_upper_sum) simp_all
  also have "\<dots> = hornerExp ?x 18 3" by (simp only: hornerExp_sum) simp
  also have "\<dots> \<le> 2" by (rule horner_below_2)
  finally have "exp ?x \<le> exp (ln 2)" by simp
  thus ?thesis by (simp only: exp_le_cancel_iff)
qed

lemma ln2_upper: "ln (2::real) \<le> 24973259072661437 / 36028797018963968"
proof -
  let ?x = "24973259072661437 / 36028797018963968 :: real"
  have "exp (ln 2) = (2::real)" by simp
  also have "2 \<le> hornerExp ?x 18 0" by (rule horner_above_2)
  also have "\<dots> = (\<Sum>k<18. ?x ^ k / fact k)" by (simp only: hornerExp_sum)
  also have "\<dots> \<le> exp ?x" by (rule exp_lower_sum) simp
  finally show ?thesis by (simp only: exp_le_cancel_iff)
qed

lemma log_half: "toDouble (ln (1 / 2)) = - 6243314768165359 / 2 ^ 53"
proof -
  have e: "ln (1 / 2 :: real) = - ln 2" by (simp add: ln_div)
  have n: "ln (1 / 2 :: real) < 0" by simp
  have a: "\<bar>ln (1 / 2 :: real)\<bar> = ln 2" using e by simp
  have "toDouble (ln (1 / 2)) = sgn (ln (1 / 2 :: real)) * of_int 6243314768165359 / 2 ^ 53"
  proof (rule toDouble_window)
    show "of_int 6243314768165359 - 1 / 2 < \<bar>ln (1 / 2 :: real)\<bar> * 2 ^ 53"
      unfolding a using ln2_lower by simp
    show "\<bar>ln (1 / 2 :: real)\<bar> * 2 ^ 53 < of_int 6243314768165359 + 1 / 2"
      unfolding a using ln2_upper by simp
  qed simp_all
  then show ?thesis using n by (simp add: sgn_real_def)
qed

lemma log_quarter: "toDouble (ln (1 / 4)) = - 6243314768165359 / 2 ^ 52"
proof -
  have "ln (1 / 4 :: real) = ln ((1 / 2) * (1 / 2))" by simp
  also have "\<dots> = ln (1 / 2) + ln (1 / 2)" by (subst ln_mult) simp_all
  also have "\<dots> = - 2 * ln 2" by (simp add: ln_div)
  finally have e: "ln (1 / 4 :: real) = - 2 * ln 2" .
  have p: "0 < ln (2::real)" by simp
  have n: "ln (1 / 4 :: real) < 0" unfolding e using p by linarith
  have a: "\<bar>ln (1 / 4 :: real)\<bar> = 2 * ln 2" unfolding e using p by linarith
  have "toDouble (ln (1 / 4)) = sgn (ln (1 / 4 :: real)) * of_int 6243314768165359 / 2 ^ 52"
  proof (rule toDouble_window)
    show "of_int 6243314768165359 - 1 / 2 < \<bar>ln (1 / 4 :: real)\<bar> * 2 ^ 52"
      unfolding a using ln2_lower by simp
    show "\<bar>ln (1 / 4 :: real)\<bar> * 2 ^ 52 < of_int 6243314768165359 + 1 / 2"
      unfolding a using ln2_upper by simp
  qed simp_all
  then show ?thesis using n by (simp add: sgn_real_def)
qed


lemma double_counts:
  "toDouble 0 = 0" "toDouble 1 = 1" "toDouble 2 = 2" "toDouble 3 = 3" "toDouble 4 = 4"
  "toDouble (1 / 2) = 1 / 2" "toDouble (1 / 4) = 1 / 4" "toDouble (2 / 4) = 1 / 2"
proof -
  show "toDouble 0 = 0" by (simp add: toDouble_def)
  show "toDouble 1 = 1" by (rule toDouble_exact [where k = 52 and z = "2 ^ 52"]) simp_all
  show "toDouble 2 = 2" by (rule toDouble_exact [where k = 51 and z = "2 ^ 52"]) simp_all
  show "toDouble 3 = 3" by (rule toDouble_exact [where k = 51 and z = "3 * 2 ^ 51"]) simp_all
  show "toDouble 4 = 4" by (rule toDouble_exact [where k = 50 and z = "2 ^ 52"]) simp_all
  show h: "toDouble (1 / 2) = 1 / 2" by (rule toDouble_exact [where k = 53 and z = "2 ^ 52"]) simp_all
  show "toDouble (1 / 4) = 1 / 4" by (rule toDouble_exact [where k = 54 and z = "2 ^ 52"]) simp_all
  show "toDouble (2 / 4) = 1 / 2" using h by simp
qed

lemma double_sums:
  "toDouble (- 6243314768165359 / 2 ^ 53 + - 6243314768165359 / 2 ^ 53) = - 6243314768165359 / 2 ^ 52"
  "toDouble (- 6243314768165359 / 2 ^ 52 + - 6243314768165359 / 2 ^ 53) = - 4682486076124019 / 2 ^ 51"
  "toDouble (- 6243314768165359 / 2 ^ 53 + - 6243314768165359 / 2 ^ 52) = - 4682486076124019 / 2 ^ 51"
  "toDouble (- 4682486076124019 / 2 ^ 51 + - 6243314768165359 / 2 ^ 53) = - 6243314768165359 / 2 ^ 51"
  "toDouble (- 6243314768165359 / 2 ^ 51 + - 6243314768165359 / 2 ^ 53) = - 7804143460206699 / 2 ^ 51"
  "toDouble (- 4682486076124019 / 2 ^ 51 + - 6243314768165359 / 2 ^ 52) = - 7804143460206698 / 2 ^ 51"
proof -
  show "toDouble (- 6243314768165359 / 2 ^ 53 + - 6243314768165359 / 2 ^ 53) = - 6243314768165359 / 2 ^ 52"
    by (subst toDouble_at [where k = 52]) (simp_all add: rne_def)
  show "toDouble (- 6243314768165359 / 2 ^ 52 + - 6243314768165359 / 2 ^ 53) = - 4682486076124019 / 2 ^ 51"
    by (subst toDouble_at [where k = 51]) (simp_all add: rne_def)
  show "toDouble (- 6243314768165359 / 2 ^ 53 + - 6243314768165359 / 2 ^ 52) = - 4682486076124019 / 2 ^ 51"
    by (subst toDouble_at [where k = 51]) (simp_all add: rne_def)
  show "toDouble (- 4682486076124019 / 2 ^ 51 + - 6243314768165359 / 2 ^ 53) = - 6243314768165359 / 2 ^ 51"
    by (subst toDouble_at [where k = 51]) (simp_all add: rne_def)
  show "toDouble (- 6243314768165359 / 2 ^ 51 + - 6243314768165359 / 2 ^ 53) = - 7804143460206699 / 2 ^ 51"
    by (subst toDouble_at [where k = 51]) (simp_all add: rne_def)
  show "toDouble (- 4682486076124019 / 2 ^ 51 + - 6243314768165359 / 2 ^ 52) = - 7804143460206698 / 2 ^ 51"
    by (subst toDouble_at [where k = 51]) (simp_all add: rne_def)
qed

lemma foldl_add_doubles_nonneg:
  "0 \<le> a \<Longrightarrow> (\<And>x. x \<in> set xs \<Longrightarrow> 0 \<le> x) \<Longrightarrow> 0 \<le> foldl (\<lambda>a b. toDouble (a + b)) a xs"
  by (induction xs arbitrary: a) (simp_all add: toDouble_nonneg)




subsection \<open>The model trained on one row\<close>

lemma apple_tokens:
  "tokenize asciiLower (js ''apple cherry apple'') = [js ''apple'', js ''cherry'', js ''apple'']"
  "tokenize asciiLower (js ''apple cherry eagle'') = [js ''apple'', js ''cherry'', js ''eagle'']"
  "tokenize asciiLower (js ''eagle cherry apple'') = [js ''eagle'', js ''cherry'', js ''apple'']"
  by (simp_all add: tokenize_def js_def asciiLower_def lowerUnit_def Plus_def matchAll.simps
      matchAt_def start_def pos_def rest_def step1_def isLower_def stop_def)

lemma apple_sets:
  "newSet (tokenize asciiLower (js ''apple cherry eagle'')) = [js ''apple'', js ''cherry'', js ''eagle'']"
  "newSet (tokenize asciiLower (js ''eagle cherry apple'')) = [js ''eagle'', js ''cherry'', js ''apple'']"
  "newSet (tokenize asciiLower (js ''apple cherry apple'')) = [js ''apple'', js ''cherry'']"
  unfolding apple_tokens by (simp_all add: newSet_def setAdd_def js_def)

lemma appleModel_fields:
  "labels appleModel = [Neutral, SlightlyBiased, HighlyBiased]"
  "vocab appleModel = [js ''apple'', js ''cherry'']"
  "docCount appleModel l = (if l = SlightlyBiased then 1 else 0)"
  "tokenCounts appleModel l = (if l = SlightlyBiased then [(js ''apple'', 1), (js ''cherry'', 1)] else [])"
  "totalTokens appleModel l = (if l = SlightlyBiased then 2 else 0)"
  "trainedOn appleModel = 1"
  unfolding appleModel_def appleRows_def trainNaiveBayes_def foldl.simps trainRow_def Let_def
    DatasetRow.select_convs apple_sets
  by (simp_all add: trainInit_def trainToken_def setAdd_def getOrZero_def mapGet_def js_def)

lemma appleModel_denominators:
  "priorDenominator appleModel = 4"
  "likelihoodDenominator appleModel l = (if l = SlightlyBiased then 4 else 2)"
  by (simp_all add: priorDenominator_def likelihoodDenominator_def totalDocs_def vocabSize_def
      appleModel_fields)

lemma appleModel_counts:
  "getOrZero (tokenCounts appleModel l) (js ''apple'') = (if l = SlightlyBiased then 1 else 0)"
  "getOrZero (tokenCounts appleModel l) (js ''cherry'') = (if l = SlightlyBiased then 1 else 0)"
  "getOrZero (tokenCounts appleModel l) (js ''eagle'') = 0"
  by (simp_all add: appleModel_fields getOrZero_def mapGet_def js_def)

text \<open>
  The scores of the two query texts in any arithmetic: the prior, and one logarithm for
  each token, added in the order of the tokens.
\<close>

lemma apple_scores_other:
  assumes "l \<noteq> SlightlyBiased"
  shows "logScore ar appleModel [t1, t2, t3] l =
     addN ar (addN ar (addN ar (logN ar (divN ar (numN ar 1) (numN ar 4)))
       (logN ar (divN ar (numN ar (getOrZero (tokenCounts appleModel l) t1 + 1)) (numN ar 2))))
       (logN ar (divN ar (numN ar (getOrZero (tokenCounts appleModel l) t2 + 1)) (numN ar 2))))
       (logN ar (divN ar (numN ar (getOrZero (tokenCounts appleModel l) t3 + 1)) (numN ar 2)))"
  using assms by (simp add: logScore_def tokenStep_def Let_def appleModel_denominators appleModel_fields)

lemma apple_scores_slightly:
  "logScore ar appleModel [t1, t2, t3] SlightlyBiased =
     addN ar (addN ar (addN ar (logN ar (divN ar (numN ar 2) (numN ar 4)))
       (logN ar (divN ar (numN ar (getOrZero (tokenCounts appleModel SlightlyBiased) t1 + 1)) (numN ar 4))))
       (logN ar (divN ar (numN ar (getOrZero (tokenCounts appleModel SlightlyBiased) t2 + 1)) (numN ar 4))))
       (logN ar (divN ar (numN ar (getOrZero (tokenCounts appleModel SlightlyBiased) t3 + 1)) (numN ar 4)))"
  by (simp add: logScore_def tokenStep_def Let_def appleModel_denominators appleModel_fields
      numeral_2_eq_2 [symmetric])

lemma one_plus_one: "Suc 0 + 1 = 2" "0 + 1 = (1::nat)" "(1::nat) + 1 = 2" "Suc (Suc 0) = 2"
  by simp_all

lemmas double_eval = doubles_ops of_nat_numeral of_nat_1 double_counts log_half log_quarter double_sums

lemma apple_scores_forward:
  "logScore doubles appleModel [js ''apple'', js ''cherry'', js ''eagle''] Neutral = - 7804143460206699 / 2 ^ 51"
  "logScore doubles appleModel [js ''apple'', js ''cherry'', js ''eagle''] SlightlyBiased = - 7804143460206698 / 2 ^ 51"
  "logScore doubles appleModel [js ''apple'', js ''cherry'', js ''eagle''] HighlyBiased = - 7804143460206699 / 2 ^ 51"
proof -
  have n: "Neutral \<noteq> SlightlyBiased" "HighlyBiased \<noteq> SlightlyBiased" by simp_all
  show "logScore doubles appleModel [js ''apple'', js ''cherry'', js ''eagle''] Neutral = - 7804143460206699 / 2 ^ 51"
    unfolding apple_scores_other [OF n(1)] appleModel_counts
    by (simp only: n if_False one_plus_one double_eval)
  show "logScore doubles appleModel [js ''apple'', js ''cherry'', js ''eagle''] HighlyBiased = - 7804143460206699 / 2 ^ 51"
    unfolding apple_scores_other [OF n(2)] appleModel_counts
    by (simp only: n if_False one_plus_one double_eval)
  show "logScore doubles appleModel [js ''apple'', js ''cherry'', js ''eagle''] SlightlyBiased = - 7804143460206698 / 2 ^ 51"
    unfolding apple_scores_slightly appleModel_counts
    by (simp only: simp_thms if_True one_plus_one double_eval)
qed

lemma apple_scores_backward:
  "logScore doubles appleModel [js ''eagle'', js ''cherry'', js ''apple''] l = - 7804143460206699 / 2 ^ 51"
proof (cases "l = SlightlyBiased")
  case True
  show ?thesis
    unfolding True apple_scores_slightly appleModel_counts
    by (simp only: simp_thms if_True one_plus_one double_eval)
next
  case False
  show ?thesis
    unfolding apple_scores_other [OF False] appleModel_counts
    by (simp only: False if_False one_plus_one double_eval)
qed

subsection \<open>The log-scores of the predictor\<close>

text \<open>
  Claim C1. For every trained model and every query text, \<open>predict\<close> computes for each
  label the log-score of the specification: the logarithm of the smoothed prior
  \<open>(documentCount[l] + 1) / (N + 3)\<close> plus, over every distinct token of the query, the
  logarithm of \<open>(tokenPresenceCount[l][t] + 1) / (totalTokenPresence[l] + V)\<close>, with \<open>N\<close> the
  documents of all labels and \<open>V = max(1, vocabulary size)\<close>. The label and the
  probabilities of the result are computed from these scores. A token that is not in
  the vocabulary is not skipped: its step adds \<open>ln(1 / (totalTokenPresence[l] + V))\<close>.
  The formula is one of real numbers, and the property is one of the exact arithmetic,
  for every lower-casing of the runtime.
\<close>

theorem predict_logScores_formula:
  "logScores exact (trainNaiveBayes lc rows) (newSet (tokenize lc txt)) =
     [(Neutral, specLogScore lc (trainNaiveBayes lc rows) txt Neutral),
      (SlightlyBiased, specLogScore lc (trainNaiveBayes lc rows) txt SlightlyBiased),
      (HighlyBiased, specLogScore lc (trainNaiveBayes lc rows) txt HighlyBiased)]
   \<and> p_probs (predict exact lc (trainNaiveBayes lc rows) txt) =
       softmaxLogScores exact (logScores exact (trainNaiveBayes lc rows) (newSet (tokenize lc txt)))
   \<and> p_label (predict exact lc (trainNaiveBayes lc rows) txt) =
       bestLabel (labels (trainNaiveBayes lc rows))
         (logScores exact (trainNaiveBayes lc rows) (newSet (tokenize lc txt)))
   \<and> (\<forall>l t ll. t \<notin> set (vocab (trainNaiveBayes lc rows)) \<longrightarrow>
         tokenStep exact (trainNaiveBayes lc rows) l ll t =
           ll + ln (1 / (real (totalTokens (trainNaiveBayes lc rows) l)
                         + real (max 1 (length (vocab (trainNaiveBayes lc rows)))))))"
proof -
  have "\<And>l t ll. t \<notin> set (vocab (trainNaiveBayes lc rows)) \<Longrightarrow>
      tokenStep exact (trainNaiveBayes lc rows) l ll t =
        ll + ln (1 / (real (totalTokens (trainNaiveBayes lc rows) l)
                      + real (max 1 (length (vocab (trainNaiveBayes lc rows))))))"
    by (rule tokenStep_absent) (rule trained_absent)
  then show ?thesis
    by (simp add: logScores_three [OF trained_labels] logScore_spec [OF trained_labels]
        predict_def Let_def)
qed

theorem predict_logScores_formula_witness:
  "logScores exact (trainNaiveBayes asciiLower []) (newSet (tokenize asciiLower (js ''calm calm report''))) =
     [(Neutral, ln (1 / 3)), (SlightlyBiased, ln (1 / 3)), (HighlyBiased, ln (1 / 3))]
   \<and> js ''calm'' \<notin> set (vocab (trainNaiveBayes asciiLower []))
   \<and> tokenStep exact (trainNaiveBayes asciiLower []) Neutral 0 (js ''calm'') = ln (1 / 1)"
  using predict_logScores_formula [of asciiLower "[]" "js ''calm calm report''"]
  by (simp add: specLogScore_Nil) (simp add: trainNaiveBayes_Nil)

subsection \<open>The label of the predictor\<close>

text \<open>
  Claim C2. For every trained model and every query text, in every arithmetic and so in
  the arithmetic of the doubles, the label of the result, which is the label of the
  response, is the arg max of the raw log-scores as \<open>predict\<close> has computed them, over
  the labels in the fixed order neutral, slightly-biased, highly-biased: no label has a
  greater score, and every label earlier in the order has a strictly smaller one, so a
  tie goes to the first label. The softmax and the sorted probabilities play no part in
  it: the label stays the same when the subtraction and the exponential, which only the
  softmax and the comparator of the sort use, are replaced by any other functions.
\<close>

theorem predict_label_argmax:
  "\<exists>b. p_label (predict ar lc (trainNaiveBayes lc rows) txt) = Some b
     \<and> (\<forall>l. logScore ar (trainNaiveBayes lc rows) (newSet (tokenize lc txt)) l
              \<le> logScore ar (trainNaiveBayes lc rows) (newSet (tokenize lc txt)) b)
     \<and> (\<forall>l. labelRank l < labelRank b \<longrightarrow>
              logScore ar (trainNaiveBayes lc rows) (newSet (tokenize lc txt)) l
              < logScore ar (trainNaiveBayes lc rows) (newSet (tokenize lc txt)) b)
     \<and> (\<forall>sub ex. p_label (predict (ar\<lparr>subN := sub, expN := ex\<rparr>) lc (trainNaiveBayes lc rows) txt) = Some b)
     \<and> respond ar lc (trainNaiveBayes lc rows) txt =
         (if blank txt then MissingText
          else Result \<lparr>r_label = Some b,
                 r_probabilities =
                   probabilities ar (trainNaiveBayes lc rows)
                     (p_probs (predict ar lc (trainNaiveBayes lc rows) txt)),
                 r_trainedOn = trainedOn (trainNaiveBayes lc rows),
                 r_labels = labels (trainNaiveBayes lc rows)\<rparr>)"
proof -
  let ?m = "trainNaiveBayes lc rows"
  let ?toks = "newSet (tokenize lc txt)"
  from label_three [of "trainNaiveBayes lc rows" ar lc "txt", OF trained_labels] obtain b where
    b: "p_label (predict ar lc ?m txt) = Some b"
       "\<forall>l. logScore ar ?m ?toks l \<le> logScore ar ?m ?toks b"
       "\<forall>l. labelRank l < labelRank b \<longrightarrow> logScore ar ?m ?toks l < logScore ar ?m ?toks b"
    by blast
  have u: "\<And>sub ex. p_label (predict (ar\<lparr>subN := sub, expN := ex\<rparr>) lc ?m txt) = Some b"
    using b(1) by (simp add: predict_def Let_def logScores_other_ops)
  have "respond ar lc ?m txt =
         (if blank txt then MissingText
          else Result \<lparr>r_label = Some b,
                 r_probabilities = probabilities ar ?m (p_probs (predict ar lc ?m txt)),
                 r_trainedOn = trainedOn ?m, r_labels = labels ?m\<rparr>)"
    by (simp add: respond_def Let_def b(1))
  with b u show ?thesis by blast
qed

text \<open>
  In the arithmetic of the doubles, on the model trained on the one row
  \<open>apple cherry apple\<close> labelled slightly-biased, the text \<open>apple cherry eagle\<close> has the
  scores \<open>-3.4657359027997265\<close>, \<open>-3.465735902799726\<close> and \<open>-3.4657359027997265\<close>, which
  are equal as real numbers; the label is slightly-biased.
\<close>

theorem predict_label_argmax_witness:
  "p_label (predict doubles asciiLower appleModel (js ''apple cherry eagle'')) = Some SlightlyBiased
   \<and> logScore doubles appleModel (newSet (tokenize asciiLower (js ''apple cherry eagle''))) Neutral
       < logScore doubles appleModel (newSet (tokenize asciiLower (js ''apple cherry eagle''))) SlightlyBiased"
proof -
  let ?toks = "newSet (tokenize asciiLower (js ''apple cherry eagle''))"
  from predict_label_argmax [of doubles asciiLower appleRows "js ''apple cherry eagle''"] obtain b where
    b: "p_label (predict doubles asciiLower appleModel (js ''apple cherry eagle'')) = Some b"
    and r: "\<forall>l. logScore doubles appleModel ?toks l \<le> logScore doubles appleModel ?toks b"
    unfolding appleModel_def [symmetric] by blast
  have lt: "logScore doubles appleModel ?toks Neutral < logScore doubles appleModel ?toks SlightlyBiased"
    "logScore doubles appleModel ?toks HighlyBiased < logScore doubles appleModel ?toks SlightlyBiased"
    by (simp_all add: apple_sets apple_scores_forward)
  from r have "logScore doubles appleModel ?toks SlightlyBiased \<le> logScore doubles appleModel ?toks b"
    by blast
  with lt have "b = SlightlyBiased" by (cases b) simp_all
  with b lt(1) show ?thesis by simp
qed

subsection \<open>The probabilities of the response\<close>



subsection \<open>The softmax and its guard\<close>



subsection \<open>Training on no rows\<close>

text \<open>
  Claim C7. Training on no rows gives the model whose document counts, token counts,
  token totals, vocabulary and \<open>trainedOn\<close> are all zero or empty. On this model the
  denominators of \<open>predict\<close> are 3 and 1, so nothing is divided by zero, and for every
  text the result is well formed: the label is neutral, in every arithmetic, and in the
  exact arithmetic each of the three labels has the probability one third.
\<close>

theorem zero_rows_model:
  "trainNaiveBayes lc [] =
     \<lparr>labels = [Neutral, SlightlyBiased, HighlyBiased], vocab = [], docCount = (\<lambda>l. 0),
      tokenCounts = (\<lambda>l. []), totalTokens = (\<lambda>l. 0), trainedOn = 0\<rparr>
   \<and> priorDenominator (trainNaiveBayes lc []) = 3
   \<and> (\<forall>l. likelihoodDenominator (trainNaiveBayes lc []) l = 1)
   \<and> (\<forall>l t. getOrZero (tokenCounts (trainNaiveBayes lc []) l) t = 0)
   \<and> predict exact lc (trainNaiveBayes lc []) txt =
       \<lparr>p_label = Some Neutral,
        p_probs = [(Neutral, 1 / 3), (SlightlyBiased, 1 / 3), (HighlyBiased, 1 / 3)]\<rparr>
   \<and> probabilities exact (trainNaiveBayes lc []) (p_probs (predict exact lc (trainNaiveBayes lc []) txt)) =
       Some [(Neutral, 1 / 3), (SlightlyBiased, 1 / 3), (HighlyBiased, 1 / 3)]
   \<and> p_label (predict ar lc (trainNaiveBayes lc []) txt) = Some Neutral"
proof -
  have q: "probabilities exact (trainNaiveBayes lc []) (p_probs (predict exact lc (trainNaiveBayes lc []) txt)) =
       Some [(Neutral, 1 / 3), (SlightlyBiased, 1 / 3), (HighlyBiased, 1 / 3)]"
    by (simp add: predict_Nil probabilities_def trained_labels mapGet_def sortByScore_exact)
  have t: "\<And>l. tokenStep ar (trainNaiveBayes lc []) l = tokenStep ar (trainNaiveBayes lc []) Neutral"
    by (intro ext) (simp add: tokenStep_def trainNaiveBayes_Nil likelihoodDenominator_def vocabSize_def)
  have s: "\<And>l. logScore ar (trainNaiveBayes lc []) (newSet (tokenize lc txt)) l =
      logScore ar (trainNaiveBayes lc []) (newSet (tokenize lc txt)) Neutral"
  proof -
    fix l
    show "logScore ar (trainNaiveBayes lc []) (newSet (tokenize lc txt)) l =
      logScore ar (trainNaiveBayes lc []) (newSet (tokenize lc txt)) Neutral"
      unfolding logScore_def t [of l] by (simp add: trainNaiveBayes_Nil)
  qed
  have a: "p_label (predict ar lc (trainNaiveBayes lc []) txt) = Some Neutral"
    by (simp add: predict_any [OF trained_labels] bestLabel_three
        s [of SlightlyBiased] s [of HighlyBiased])
  show ?thesis
    using q a
    by (simp add: predict_Nil)
       (simp add: trainNaiveBayes_Nil priorDenominator_def likelihoodDenominator_def totalDocs_def
        vocabSize_def getOrZero_def mapGet_def)
qed

theorem zero_rows_model_witness:
  "predict exact asciiLower (trainNaiveBayes asciiLower []) (js ''calm calm report'') =
     \<lparr>p_label = Some Neutral,
      p_probs = [(Neutral, 1 / 3), (SlightlyBiased, 1 / 3), (HighlyBiased, 1 / 3)]\<rparr>
   \<and> likelihoodDenominator (trainNaiveBayes asciiLower []) HighlyBiased = 1
   \<and> p_label (predict doubles asciiLower (trainNaiveBayes asciiLower []) (js ''calm calm report'')) = Some Neutral"
  using zero_rows_model [of asciiLower "js ''calm calm report''" doubles] by blast

subsection \<open>The invariants of a trained model\<close>

text \<open>
  Claim C8. For every list of training rows, the document counts of the three labels
  add up to \<open>trainedOn\<close>, which is the number of rows, and the vocabulary is exactly the
  set of the tokens that have a positive entry in the token counts of some label.
\<close>

theorem trained_model_invariants:
  "docCount (trainNaiveBayes lc rows) Neutral + docCount (trainNaiveBayes lc rows) SlightlyBiased
      + docCount (trainNaiveBayes lc rows) HighlyBiased = trainedOn (trainNaiveBayes lc rows)
   \<and> sum_list (map (docCount (trainNaiveBayes lc rows)) (labels (trainNaiveBayes lc rows)))
      = trainedOn (trainNaiveBayes lc rows)
   \<and> trainedOn (trainNaiveBayes lc rows) = length rows
   \<and> set (vocab (trainNaiveBayes lc rows)) =
       {t. \<exists>l c. mapGet (tokenCounts (trainNaiveBayes lc rows) l) t = Some c \<and> 0 < c}"
proof -
  have d: "docSum (foldl (trainRow lc) trainInit rows) = length rows"
    by (simp add: foldl_trainRow_docSum) (simp add: docSum_def trainInit_def)
  note v = trained_vocabInv [of lc rows]
  have s: "set (ts_vocab (foldl (trainRow lc) trainInit rows)) =
      {t. \<exists>l c. map_of (ts_tokenCounts (foldl (trainRow lc) trainInit rows) l) t = Some c \<and> 0 < c}"
  proof -
    have "\<And>t. (\<exists>l. map_of (ts_tokenCounts (foldl (trainRow lc) trainInit rows) l) t \<noteq> None) \<longleftrightarrow>
        (\<exists>l c. map_of (ts_tokenCounts (foldl (trainRow lc) trainInit rows) l) t = Some c \<and> 0 < c)"
      using v unfolding vocabInv_def by (metis gr0I not_None_eq option.distinct(1))
    then show ?thesis
      using v unfolding vocabInv_def by auto
  qed
  show ?thesis
    using d s by (simp add: trainNaiveBayes_def Let_def docSum_def mapGet_def)
qed

theorem trained_model_invariants_witness:
  "trainedOn (trainNaiveBayes asciiLower [\<lparr>row_text = js ''calm calm report'', row_label = Neutral\<rparr>]) = 1
   \<and> docCount (trainNaiveBayes asciiLower [\<lparr>row_text = js ''calm calm report'', row_label = Neutral\<rparr>]) Neutral
      + docCount (trainNaiveBayes asciiLower [\<lparr>row_text = js ''calm calm report'', row_label = Neutral\<rparr>]) SlightlyBiased
      + docCount (trainNaiveBayes asciiLower [\<lparr>row_text = js ''calm calm report'', row_label = Neutral\<rparr>]) HighlyBiased = 1"
  using trained_model_invariants [of asciiLower "[\<lparr>row_text = js ''calm calm report'', row_label = Neutral\<rparr>]"]
  by simp

subsection \<open>The query text counts as a sequence of distinct tokens\<close>

text \<open>
  Claim C10 fails in the arithmetic of the doubles. The texts \<open>apple cherry eagle\<close> and
  \<open>eagle cherry apple\<close> have the same set of tokens. On the model trained on the one row
  \<open>apple cherry apple\<close> labelled slightly-biased, the three scores of each text are equal
  as real numbers, \<open>ln(1/32)\<close>. \<open>predict\<close> adds the logarithms in the order of the tokens
  and every sum is rounded: for the first text the score of slightly-biased is
  \<open>-3.465735902799726\<close>, one unit in the last place above the two others, and the label
  is slightly-biased; for the second text the three scores are \<open>-3.4657359027997265\<close>,
  and the label is neutral.
\<close>

theorem token_order_changes_label:
  "set (tokenize asciiLower (js ''apple cherry eagle'')) = set (tokenize asciiLower (js ''eagle cherry apple''))
   \<and> p_label (predict doubles asciiLower appleModel (js ''apple cherry eagle'')) = Some SlightlyBiased
   \<and> p_label (predict doubles asciiLower appleModel (js ''eagle cherry apple'')) = Some Neutral
   \<and> logScores doubles appleModel (newSet (tokenize asciiLower (js ''apple cherry eagle''))) =
       [(Neutral, - 7804143460206699 / 2 ^ 51), (SlightlyBiased, - 7804143460206698 / 2 ^ 51),
        (HighlyBiased, - 7804143460206699 / 2 ^ 51)]
   \<and> logScores doubles appleModel (newSet (tokenize asciiLower (js ''eagle cherry apple''))) =
       [(Neutral, - 7804143460206699 / 2 ^ 51), (SlightlyBiased, - 7804143460206699 / 2 ^ 51),
        (HighlyBiased, - 7804143460206699 / 2 ^ 51)]"
proof -
  have s: "set (tokenize asciiLower (js ''apple cherry eagle'')) = set (tokenize asciiLower (js ''eagle cherry apple''))"
    unfolding apple_tokens by auto
  have f: "logScores doubles appleModel (newSet (tokenize asciiLower (js ''apple cherry eagle''))) =
       [(Neutral, - 7804143460206699 / 2 ^ 51), (SlightlyBiased, - 7804143460206698 / 2 ^ 51),
        (HighlyBiased, - 7804143460206699 / 2 ^ 51)]"
    by (simp only: apple_sets logScores_three [OF appleModel_fields(1)] apple_scores_forward)
  have b: "logScores doubles appleModel (newSet (tokenize asciiLower (js ''eagle cherry apple''))) =
       [(Neutral, - 7804143460206699 / 2 ^ 51), (SlightlyBiased, - 7804143460206699 / 2 ^ 51),
        (HighlyBiased, - 7804143460206699 / 2 ^ 51)]"
    by (simp only: apple_sets logScores_three [OF appleModel_fields(1)] apple_scores_backward)
  have lf: "p_label (predict doubles asciiLower appleModel (js ''apple cherry eagle'')) = Some SlightlyBiased"
    unfolding predict_def Let_def f appleModel_fields(1) by (simp add: bestLabel_three)
  have lb: "p_label (predict doubles asciiLower appleModel (js ''eagle cherry apple'')) = Some Neutral"
    unfolding predict_def Let_def b appleModel_fields(1) by (simp add: bestLabel_three)
  show ?thesis
    using s f b lf lb by (simp only: simp_thms)
qed

text \<open>
  Claim C10, as amended. \<open>predict\<close> depends on the query text only through the sequence
  of its distinct tokens, in the order of their first occurrence: in every arithmetic,
  two texts with the same sequence of distinct tokens, whatever the multiplicity of the
  tokens, get the same label and the same probabilities. Two texts with the same set of
  tokens in another order get the same label and the same probabilities in the exact
  arithmetic, where the order of a sum does not matter.
\<close>

theorem predict_depends_on_token_sequence:
  "(newSet (tokenize lc t1) = newSet (tokenize lc t2) \<longrightarrow>
      predict ar lc m t1 = predict ar lc m t2
      \<and> p_label (predict ar lc m t1) = p_label (predict ar lc m t2)
      \<and> p_probs (predict ar lc m t1) = p_probs (predict ar lc m t2)
      \<and> probabilities ar m (p_probs (predict ar lc m t1)) = probabilities ar m (p_probs (predict ar lc m t2)))
   \<and> (set (tokenize lc t1) = set (tokenize lc t2) \<longrightarrow>
      predict exact lc m t1 = predict exact lc m t2
      \<and> p_label (predict exact lc m t1) = p_label (predict exact lc m t2)
      \<and> p_probs (predict exact lc m t1) = p_probs (predict exact lc m t2)
      \<and> probabilities exact m (p_probs (predict exact lc m t1)) =
          probabilities exact m (p_probs (predict exact lc m t2)))"
proof -
  have a: "newSet (tokenize lc t1) = newSet (tokenize lc t2) \<Longrightarrow> predict ar lc m t1 = predict ar lc m t2"
    by (simp add: predict_def Let_def)
  have b: "set (tokenize lc t1) = set (tokenize lc t2) \<Longrightarrow> predict exact lc m t1 = predict exact lc m t2"
  proof -
    assume "set (tokenize lc t1) = set (tokenize lc t2)"
    then have "logScore exact m (newSet (tokenize lc t1)) = logScore exact m (newSet (tokenize lc t2))"
      by (intro logScore_set) (simp_all add: distinct_newSet set_newSet)
    then show "predict exact lc m t1 = predict exact lc m t2"
      by (simp add: predict_def logScores_def Let_def)
  qed
  show ?thesis using a b by simp
qed

theorem predict_depends_on_token_sequence_witness:
  "newSet (tokenize asciiLower (js ''calm calm report'')) = newSet (tokenize asciiLower (js ''the calm report''))
   \<and> tokenize asciiLower (js ''calm calm report'') \<noteq> tokenize asciiLower (js ''the calm report'')
   \<and> predict doubles asciiLower appleModel (js ''calm calm report'') =
       predict doubles asciiLower appleModel (js ''the calm report'')
   \<and> set (tokenize asciiLower (js ''apple cherry eagle'')) = set (tokenize asciiLower (js ''eagle cherry apple''))
   \<and> predict exact asciiLower appleModel (js ''apple cherry eagle'') =
       predict exact asciiLower appleModel (js ''eagle cherry apple'')"
proof -
  have h: "newSet (tokenize asciiLower (js ''calm calm report'')) = newSet (tokenize asciiLower (js ''the calm report''))"
    unfolding tokens_calm by (simp add: newSet_def setAdd_def js_def)
  have d: "tokenize asciiLower (js ''calm calm report'') \<noteq> tokenize asciiLower (js ''the calm report'')"
    unfolding tokens_calm by simp
  have s: "set (tokenize asciiLower (js ''apple cherry eagle'')) = set (tokenize asciiLower (js ''eagle cherry apple''))"
    unfolding apple_tokens by auto
  from predict_depends_on_token_sequence
      [of asciiLower "js ''calm calm report''" "js ''the calm report''" doubles appleModel] h
  have p: "predict doubles asciiLower appleModel (js ''calm calm report'') =
       predict doubles asciiLower appleModel (js ''the calm report'')"
    by blast
  from predict_depends_on_token_sequence
      [of asciiLower "js ''apple cherry eagle''" "js ''eagle cherry apple''" doubles appleModel] s
  have q: "predict exact asciiLower appleModel (js ''apple cherry eagle'') =
       predict exact asciiLower appleModel (js ''eagle cherry apple'')"
    by blast
  from h d p s q show ?thesis by (simp only: simp_thms)
qed

subsection \<open>The CSV parser\<close>

lemma units_distinct:
  "dquote \<noteq> comma" "dquote \<noteq> lf" "dquote \<noteq> cr" "comma \<noteq> lf" "comma \<noteq> cr" "lf \<noteq> cr"
  "comma \<noteq> dquote" "lf \<noteq> dquote" "cr \<noteq> dquote" "lf \<noteq> comma" "cr \<noteq> comma" "cr \<noteq> lf"
  by (simp_all add: dquote_def comma_def lf_def cr_def)

lemma parse_plain:
  "\<not> cs_inQuotes st \<Longrightarrow> list_all plainUnit f \<Longrightarrow>
   parseLoop (f @ sfx) st = parseLoop sfx (st\<lparr>cs_field := cs_field st @ f\<rparr>)"
  by (induction f arbitrary: st) (simp_all add: plainUnit_def)

lemma escapeQuotes_Cons:
  "escapeQuotes (c # f) = (if c = dquote then [dquote, dquote] else [c]) @ escapeQuotes f"
  by (simp add: escapeQuotes_def)

lemma unquoted_id:
  "\<not> cs_inQuotes st \<Longrightarrow> st\<lparr>cs_field := x, cs_inQuotes := False\<rparr> = st\<lparr>cs_field := x\<rparr>"
  by (cases st) simp

lemma parse_escaped:
  "cs_inQuotes st \<Longrightarrow> sfx = [] \<or> hd sfx \<noteq> dquote \<Longrightarrow>
   parseLoop (escapeQuotes f @ dquote # sfx) st =
     parseLoop sfx (st\<lparr>cs_field := cs_field st @ f, cs_inQuotes := False\<rparr>)"
proof (induction f arbitrary: st)
  case Nil
  then show ?case by (cases sfx) (simp_all add: escapeQuotes_def)
next
  case (Cons c f)
  show ?case
  proof (cases "c = dquote")
    case True
    with Cons show ?thesis by (simp add: escapeQuotes_Cons)
  next
    case False
    with Cons show ?thesis by (simp add: escapeQuotes_Cons)
  qed
qed

lemma parse_cell:
  assumes "\<not> cs_inQuotes st" "wellFormed c" "sfx = [] \<or> hd sfx \<noteq> dquote"
  shows "parseLoop (writeCell c @ sfx) st = parseLoop sfx (st\<lparr>cs_field := cs_field st @ cellValue c\<rparr>)"
proof (cases c)
  case (Plain f)
  with assms show ?thesis by (simp add: parse_plain)
next
  case (Quoted f)
  have "parseLoop (writeCell c @ sfx) st = parseLoop (escapeQuotes f @ dquote # sfx) (st\<lparr>cs_inQuotes := True\<rparr>)"
    using assms(1) by (simp add: Quoted)
  also have "\<dots> = parseLoop sfx (st\<lparr>cs_inQuotes := True, cs_field := cs_field st @ f, cs_inQuotes := False\<rparr>)"
    using assms(3) by (subst parse_escaped) simp_all
  finally show ?thesis using assms(1) by (simp add: Quoted unquoted_id)
qed

lemma parse_row:
  assumes "r \<noteq> []" "list_all wellFormed r" "\<not> cs_inQuotes st" "cs_field st = []"
    and "sfx = [] \<or> hd sfx = lf \<or> hd sfx = cr"
  shows "parseLoop (writeRow r @ sfx) st =
     parseLoop sfx (st\<lparr>cs_row := cs_row st @ butlast (map cellValue r),
                       cs_field := last (map cellValue r)\<rparr>)"
  using assms
proof (induction r arbitrary: st rule: writeRow.induct)
  case 1
  then show ?case by simp
next
  case (2 c)
  then have "sfx = [] \<or> hd sfx \<noteq> dquote" by (auto simp: units_distinct)
  with 2 show ?case by (simp add: parse_cell)
next
  case (3 c d ds)
  let ?st1 = "st\<lparr>cs_field := cs_field st @ cellValue c\<rparr>"
  let ?st2 = "st\<lparr>cs_row := cs_row st @ [cellValue c], cs_field := []\<rparr>"
  have "parseLoop (writeRow (c # d # ds) @ sfx) st = parseLoop (writeCell c @ comma # writeRow (d # ds) @ sfx) st"
    by simp
  also have "\<dots> = parseLoop (comma # writeRow (d # ds) @ sfx) ?st1"
    using 3(2-) by (subst parse_cell) (simp_all add: units_distinct)
  also have "\<dots> = parseLoop (writeRow (d # ds) @ sfx) ?st2"
    using 3(2-) by (simp add: units_distinct)
  also have "\<dots> = parseLoop sfx (?st2\<lparr>cs_row := cs_row ?st2 @ butlast (map cellValue (d # ds)),
                       cs_field := last (map cellValue (d # ds))\<rparr>)"
    using 3(2-) by (intro 3(1)) simp_all
  finally show ?case by simp
qed

lemma fresh_line:
  "cs_row st = [] \<Longrightarrow> cs_field st = [] \<Longrightarrow>
   st\<lparr>cs_row := a, cs_field := b, cs_rows := c, cs_row := [], cs_field := []\<rparr> = st\<lparr>cs_rows := c\<rparr>"
  by (cases st) simp

lemma fresh_line2:
  "cs_row st = [] \<Longrightarrow> cs_field st = [] \<Longrightarrow>
   st\<lparr>cs_rows := c, cs_row := [], cs_field := []\<rparr> = st\<lparr>cs_rows := c\<rparr>"
  by (cases st) simp

lemma parse_line:
  assumes "r \<noteq> []" "list_all wellFormed r" "\<not> cs_inQuotes st" "cs_field st = []" "cs_row st = []"
    and "nl = [lf] \<or> nl = [cr, lf]"
  shows "parseLoop (writeRow r @ nl @ sfx) st =
     parseLoop sfx (st\<lparr>cs_rows := cs_rows st @ [map cellValue r]\<rparr>)"
proof -
  have h: "nl @ sfx = [] \<or> hd (nl @ sfx) = lf \<or> hd (nl @ sfx) = cr"
    using assms(6) by auto
  have v: "butlast (map cellValue r) @ [last (map cellValue r)] = map cellValue r"
    using assms(1) by (simp add: append_butlast_last_id)
  have "parseLoop (writeRow r @ nl @ sfx) st =
      parseLoop (nl @ sfx) (st\<lparr>cs_row := cs_row st @ butlast (map cellValue r),
                       cs_field := last (map cellValue r)\<rparr>)"
    using assms(1-4) h by (rule parse_row)
  also have "\<dots> = parseLoop sfx (st\<lparr>cs_row := butlast (map cellValue r),
      cs_field := last (map cellValue r), cs_rows := cs_rows st @ [map cellValue r],
      cs_row := [], cs_field := []\<rparr>)"
    using assms(3,5,6) v by (auto simp add: units_distinct)
  finally show ?thesis using assms(4,5) by (simp add: fresh_line fresh_line2)
qed

lemma parse_table:
  assumes "wellFormedTable table" "\<not> cs_inQuotes st" "cs_field st = []" "cs_row st = []"
    and "nl = [lf] \<or> nl = [cr, lf]"
  shows "parseLoop (writeCSV nl table @ sfx) st =
     parseLoop sfx (st\<lparr>cs_rows := cs_rows st @ map (map cellValue) table\<rparr>)"
  using assms(1-4)
proof (induction table arbitrary: st)
  case Nil
  then show ?case by (simp add: writeCSV_def)
next
  case (Cons r table)
  have w: "writeCSV nl (r # table) @ sfx = writeRow r @ nl @ (writeCSV nl table @ sfx)"
    by (simp add: writeCSV_def)
  have r: "r \<noteq> []" "list_all wellFormed r" "wellFormedTable table"
    using Cons.prems(1) by (simp_all add: wellFormedTable_def)
  have "parseLoop (writeCSV nl (r # table) @ sfx) st =
      parseLoop (writeCSV nl table @ sfx) (st\<lparr>cs_rows := cs_rows st @ [map cellValue r]\<rparr>)"
    unfolding w using r(1,2) Cons.prems(2-4) assms(5) by (rule parse_line)
  also have "\<dots> = parseLoop sfx (st\<lparr>cs_rows := cs_rows st @ [map cellValue r],
       cs_rows := (cs_rows st @ [map cellValue r]) @ map (map cellValue) table\<rparr>)"
    using r(3) Cons.prems(2-4) by (subst Cons.IH) simp_all
  finally show ?case by simp
qed

lemma parseCSV_written:
  assumes "wellFormedTable table" "nl = [lf] \<or> nl = [cr, lf]"
  shows "parseCSV (writeCSV nl table) = map (map cellValue) table"
proof -
  have "parseLoop (writeCSV nl table @ []) csvInit =
      parseLoop [] (csvInit\<lparr>cs_rows := cs_rows csvInit @ map (map cellValue) table\<rparr>)"
    using assms by (intro parse_table) (simp_all add: csvInit_def)
  then have "parseLoop (writeCSV nl table) csvInit = csvInit\<lparr>cs_rows := map (map cellValue) table\<rparr>"
    by (simp add: csvInit_def)
  then show ?thesis by (simp add: parseCSV_def csvInit_def)
qed

lemma parseCSV_open_end:
  assumes "wellFormedTable table" "nl = [lf] \<or> nl = [cr, lf]" "r \<noteq> []" "list_all wellFormed r"
    and "map cellValue r \<noteq> [[]]"
  shows "parseCSV (writeCSV nl table @ writeRow r) = map (map cellValue) table @ [map cellValue r]"
proof -
  let ?st = "csvInit\<lparr>cs_rows := map (map cellValue) table\<rparr>"
  have "parseLoop (writeCSV nl table @ writeRow r) csvInit =
      parseLoop (writeRow r) (csvInit\<lparr>cs_rows := cs_rows csvInit @ map (map cellValue) table\<rparr>)"
    using assms(1,2) by (intro parse_table) (simp_all add: csvInit_def)
  also have "\<dots> = parseLoop (writeRow r @ []) ?st" by (simp add: csvInit_def)
  also have "\<dots> = parseLoop [] (?st\<lparr>cs_row := cs_row ?st @ butlast (map cellValue r),
                       cs_field := last (map cellValue r)\<rparr>)"
    using assms(3,4) by (intro parse_row) (simp_all add: csvInit_def)
  finally have p: "parseLoop (writeCSV nl table @ writeRow r) csvInit =
      ?st\<lparr>cs_row := butlast (map cellValue r), cs_field := last (map cellValue r)\<rparr>"
    by (simp add: csvInit_def)
  have v: "butlast (map cellValue r) @ [last (map cellValue r)] = map cellValue r"
    using assms(3) by (simp add: append_butlast_last_id)
  have n: "\<not> (length (map cellValue r) = 1 \<and> map cellValue r ! 0 = [])"
    using assms(5) by (cases "map cellValue r") auto
  let ?end = "parseLoop (writeCSV nl table @ writeRow r) csvInit"
  have rows: "cs_rows ?end @ [cs_row ?end @ [cs_field ?end]] = map (map cellValue) table @ [map cellValue r]"
    unfolding p by (simp add: v csvInit_def)
  show ?thesis
    unfolding parseCSV_def Let_def rows using n by simp
qed

lemma quoted_example:
  \<open>parseCSV (js ''"a, ""quoted"" value"'') = [[js ''a, "quoted" value'']]\<close>
  by (simp add: parseCSV_def csvInit_def js_def dquote_def comma_def lf_def cr_def)

text \<open>
  Claim C6. The parser reads the field \<open>"a, ""quoted"" value"\<close> as the single value
  \<open>a, "quoted" value\<close>. For every table whose rows are not empty and whose plain cells hold
  no quote, comma or line break, written with plain or quoted cells (quoted cells may hold
  commas, line breaks and doubled quotes), the parser reads back the values of the cells,
  whether the rows end with \<open>\n\<close> or with \<open>\r\n\<close>; the line break after the last row adds no
  empty row, and the last row may also come without it.
\<close>

theorem parseCSV_reads_written_table:
  \<open>wellFormedTable table \<Longrightarrow>
   parseCSV (js ''"a, ""quoted"" value"'') = [[js ''a, "quoted" value'']]
   \<and> parseCSV (writeCSV [lf] table) = map (map cellValue) table
   \<and> parseCSV (writeCSV [cr, lf] table) = map (map cellValue) table
   \<and> (\<forall>r. r \<noteq> [] \<and> list_all wellFormed r \<and> map cellValue r \<noteq> [[]] \<longrightarrow>
         parseCSV (writeCSV [lf] table @ writeRow r) = map (map cellValue) table @ [map cellValue r]
         \<and> parseCSV (writeCSV [cr, lf] table @ writeRow r) = map (map cellValue) table @ [map cellValue r])\<close>
  by (simp add: quoted_example parseCSV_written parseCSV_open_end)

theorem parseCSV_reads_written_table_witness:
  \<open>wellFormedTable [[Plain (js ''id''), Quoted (js ''a, "b"'')], [Plain (js ''7''), Quoted []]]
   \<and> writeCSV [cr, lf] [[Plain (js ''id''), Quoted (js ''a, "b"'')], [Plain (js ''7''), Quoted []]] =
       js ''id,"a, ""b"""'' @ [cr, lf] @ js ''7,""'' @ [cr, lf]
   \<and> parseCSV (js ''id,"a, ""b"""'' @ [cr, lf] @ js ''7,""'' @ [cr, lf]) =
       [[js ''id'', js ''a, "b"''], [js ''7'', []]]\<close>
proof -
  have w: \<open>wellFormedTable [[Plain (js ''id''), Quoted (js ''a, "b"'')], [Plain (js ''7''), Quoted []]]\<close>
    by (simp add: wellFormedTable_def plainUnit_def js_def dquote_def comma_def lf_def cr_def)
  have t: \<open>writeCSV [cr, lf] [[Plain (js ''id''), Quoted (js ''a, "b"'')], [Plain (js ''7''), Quoted []]] =
       js ''id,"a, ""b"""'' @ [cr, lf] @ js ''7,""'' @ [cr, lf]\<close>
    by (simp add: writeCSV_def escapeQuotes_def js_def dquote_def comma_def)
  from parseCSV_reads_written_table [OF w] w t show ?thesis by simp
qed

subsection \<open>The model cache\<close>

lemma cacheInv_init: "cacheInv cacheInit"
  by (simp add: cacheInv_def cacheInit_def)

lemma cacheInv_step: "cacheInv st \<Longrightarrow> step e st = Some st' \<Longrightarrow> cacheInv st'"
  by (cases e)
     (auto simp add: cacheInv_def getModel_def onResolved_def onRejected_def
        split: option.splits if_splits)

lemma cacheInv_run: "cacheInv st \<Longrightarrow> run es st = Some st' \<Longrightarrow> cacheInv st'"
proof (induction es arbitrary: st)
  case Nil
  then show ?case by simp
next
  case (Cons e es)
  then show ?case by (auto split: option.splits dest: cacheInv_step)
qed

lemma reachable_inv: "reachable st \<Longrightarrow> cacheInv st"
  unfolding reachable_def using cacheInv_init cacheInv_run by blast

lemma cached_step:
  "cacheInv st \<Longrightarrow> cachedModel st = Some m \<Longrightarrow> step e st = Some st' \<Longrightarrow>
   cachedModel st' = Some m \<and> started st' = started st \<and> st' = st"
  by (cases e) (auto simp add: cacheInv_def getModel_def split: option.splits if_splits)

lemma cached_run:
  "cacheInv st \<Longrightarrow> cachedModel st = Some m \<Longrightarrow> run es st = Some st' \<Longrightarrow> st' = st"
proof (induction es arbitrary: st)
  case Nil
  then show ?case by simp
next
  case (Cons e es)
  from Cons.prems(3) obtain st1 where s: "step e st = Some st1" "run es st1 = Some st'"
    by (auto split: option.splits)
  from cached_step [OF Cons.prems(1,2) s(1)] have "st1 = st" by simp
  with Cons.IH [OF Cons.prems(1,2)] s(2) show ?case by simp
qed

lemma calls_only:
  "run (replicate n Call) \<lparr>cachedModel = None, buildingPromise = Some 0, pending = [0], started = 1\<rparr> =
     Some \<lparr>cachedModel = None, buildingPromise = Some 0, pending = [0], started = 1\<rparr>"
  by (induction n) (simp_all add: getModel_def)

lemma first_calls:
  "run (replicate (Suc n) Call) cacheInit =
     Some \<lparr>cachedModel = None, buildingPromise = Some 0, pending = [0], started = 1\<rparr>"
  using calls_only [of n] by (simp add: getModel_def cacheInit_def)

lemma join_pending:
  "cacheInv st \<Longrightarrow> buildingPromise st = Some p \<Longrightarrow>
   cachedModel st = None \<and> getModel st = (Awaiting p, st) \<and> pending st = [p]"
  by (auto simp add: cacheInv_def getModel_def split: option.splits)

lemma reject_retry:
  assumes "cacheInv st" "buildingPromise st = Some p"
  shows "step (Reject p) st = Some (st\<lparr>buildingPromise := None, pending := []\<rparr>)"
    and "cachedModel (st\<lparr>buildingPromise := None, pending := []\<rparr>) = None"
    and "getModel (st\<lparr>buildingPromise := None, pending := []\<rparr>) =
      (Awaiting (started st), st\<lparr>buildingPromise := Some (started st), pending := [started st],
          started := Suc (started st)\<rparr>)"
  using assms by (auto simp add: cacheInv_def getModel_def onRejected_def split: option.splits)

lemma resolve_caches:
  assumes "cacheInv st" "buildingPromise st = Some p"
  shows "step (Resolve p m) st = Some (st\<lparr>cachedModel := Some m, buildingPromise := None, pending := []\<rparr>)"
  using assms by (auto simp add: cacheInv_def onResolved_def split: option.splits)

text \<open>
  Claim C9. In every state the cache can reach: once a model is cached, \<open>getModel\<close>
  returns that model and no later step changes the state, so nothing is trained again;
  while a build is in flight no model is cached, \<open>getModel\<close> returns the promise of that
  build and starts none, and that build is the only pending one, so any number of calls
  before the first build settles start exactly one build; when the build fails, the
  marker is cleared, nothing is cached, and the next call starts a new build; when it
  succeeds, its model is cached.
\<close>

theorem getModel_single_flight:
  "reachable st \<Longrightarrow>
   (\<forall>m. cachedModel st = Some m \<longrightarrow>
      getModel st = (Ready m, st) \<and> (\<forall>es st'. run es st = Some st' \<longrightarrow> st' = st))
   \<and> (\<forall>p. buildingPromise st = Some p \<longrightarrow>
        cachedModel st = None \<and> getModel st = (Awaiting p, st) \<and> pending st = [p]
        \<and> step (Reject p) st = Some (st\<lparr>buildingPromise := None, pending := []\<rparr>)
        \<and> getModel (st\<lparr>buildingPromise := None, pending := []\<rparr>) =
            (Awaiting (started st),
             st\<lparr>buildingPromise := Some (started st), pending := [started st],
                started := Suc (started st)\<rparr>)
        \<and> (\<forall>m. step (Resolve p m) st =
              Some (st\<lparr>cachedModel := Some m, buildingPromise := None, pending := []\<rparr>)))
   \<and> length (pending st) \<le> 1
   \<and> (\<forall>n. run (replicate (Suc n) Call) cacheInit =
         Some \<lparr>cachedModel = None, buildingPromise = Some 0, pending = [0], started = 1\<rparr>)"
proof -
  assume "reachable st"
  then have i: "cacheInv st" by (rule reachable_inv)
  have a: "\<forall>m. cachedModel st = Some m \<longrightarrow>
      getModel st = (Ready m, st) \<and> (\<forall>es st'. run es st = Some st' \<longrightarrow> st' = st)"
    using cached_run [OF i] by (auto simp add: getModel_def)
  have b: "\<forall>p. buildingPromise st = Some p \<longrightarrow>
        cachedModel st = None \<and> getModel st = (Awaiting p, st) \<and> pending st = [p]
        \<and> step (Reject p) st = Some (st\<lparr>buildingPromise := None, pending := []\<rparr>)
        \<and> getModel (st\<lparr>buildingPromise := None, pending := []\<rparr>) =
            (Awaiting (started st),
             st\<lparr>buildingPromise := Some (started st), pending := [started st],
                started := Suc (started st)\<rparr>)
        \<and> (\<forall>m. step (Resolve p m) st =
              Some (st\<lparr>cachedModel := Some m, buildingPromise := None, pending := []\<rparr>))"
    using join_pending [OF i] reject_retry [OF i] resolve_caches [OF i] by blast
  have c: "length (pending st) \<le> 1"
    using i by (auto simp add: cacheInv_def split: option.splits)
  show ?thesis
    using a b c first_calls by blast
qed

theorem getModel_single_flight_witness:
  "reachable \<lparr>cachedModel = None :: nat option, buildingPromise = Some 0, pending = [0], started = 1\<rparr>
   \<and> getModel \<lparr>cachedModel = None :: nat option, buildingPromise = Some 0, pending = [0], started = 1\<rparr> =
       (Awaiting 0, \<lparr>cachedModel = None, buildingPromise = Some 0, pending = [0], started = 1\<rparr>)
   \<and> reachable \<lparr>cachedModel = Some (7 :: nat), buildingPromise = None, pending = [], started = 1\<rparr>
   \<and> getModel \<lparr>cachedModel = Some (7 :: nat), buildingPromise = None, pending = [], started = 1\<rparr> =
       (Ready 7, \<lparr>cachedModel = Some 7, buildingPromise = None, pending = [], started = 1\<rparr>)"
proof -
  have "run [Call] cacheInit =
      Some \<lparr>cachedModel = None :: nat option, buildingPromise = Some 0, pending = [0], started = 1\<rparr>"
    by (simp add: getModel_def cacheInit_def)
  then have r1: "reachable \<lparr>cachedModel = None :: nat option, buildingPromise = Some 0, pending = [0],
      started = 1\<rparr>"
    unfolding reachable_def by blast
  have "run [Call, Resolve 0 7] cacheInit =
      Some \<lparr>cachedModel = Some (7 :: nat), buildingPromise = None, pending = [], started = 1\<rparr>"
    by (simp add: getModel_def cacheInit_def onResolved_def)
  then have r2: "reachable \<lparr>cachedModel = Some (7 :: nat), buildingPromise = None, pending = [],
      started = 1\<rparr>"
    unfolding reachable_def by blast
  from getModel_single_flight [OF r1]
  have g1: "getModel \<lparr>cachedModel = None :: nat option, buildingPromise = Some 0, pending = [0], started = 1\<rparr> =
       (Awaiting 0, \<lparr>cachedModel = None, buildingPromise = Some 0, pending = [0], started = 1\<rparr>)"
    by simp (elim conjE)
  from getModel_single_flight [OF r2]
  have g2: "getModel \<lparr>cachedModel = Some (7 :: nat), buildingPromise = None, pending = [], started = 1\<rparr> =
       (Ready 7, \<lparr>cachedModel = Some 7, buildingPromise = None, pending = [], started = 1\<rparr>)"
    by simp (elim conjE)
  from r1 g1 r2 g2 show ?thesis by (intro conjI)
qed

subsection \<open>The extractive summarizer\<close>

lemmas cursor_defs = start_def pos_def rest_def prev_def step1_def matchAt_def

lemma echo_norm: "trim (replaceAll spaces (js '' '') (start echoText)) = echoNormalized"
  by (simp add: echoText_def echoNormalized_def js_def ellipsis_def cursor_defs spaces_def Plus_def
      isSpace_def replaceAll.simps trim_def)

lemma lowersAscii_asciiLower: "lowersAscii asciiLower"
  by (simp add: lowersAscii_def)

lemma echo_lower:
  assumes "lowersAscii lc"
  shows "lc echoNormalized = asciiLower echoNormalized" "lc (js ''- Topic:'') = asciiLower (js ''- Topic:'')"
proof -
  have "plainUnits echoNormalized"
    by (simp add: plainUnits_def echoNormalized_def js_def ellipsis_def)
  then show "lc echoNormalized = asciiLower echoNormalized"
    using assms by (simp add: lowersAscii_def)
  have "plainUnits (js ''- Topic:'')"
    by (simp add: plainUnits_def js_def)
  then show "lc (js ''- Topic:'') = asciiLower (js ''- Topic:'')"
    using assms by (simp add: lowersAscii_def)
qed

lemma echo_tokens:
  assumes "lowersAscii lc"
  shows "tokenizeSummary lc echoNormalized =
     map js [''topic'', ''topic'', ''key'', ''terms'', ''topic'', ''key'', ''terms'', ''summary'', ''summary'',
             ''topic'', ''topic'', ''key'', ''terms'', ''topic'', ''key'', ''terms'', ''summary'', ''summary'',
             ''topic'', ''topic'', ''key'', ''terms'', ''topic'', ''key'', ''terms'', ''summary'', ''summary'',
             ''topic'', ''topic'', ''key'', ''terms'']"
  unfolding tokenizeSummary_def echo_lower(1) [OF assms]
  by (simp add: echoNormalized_def js_def ellipsis_def cursor_defs Plus_def
      isLowerOrDigit_def matchAll.simps asciiLower_def lowerUnit_def stopSummary_def)

lemma echo_keywords:
  "lowersAscii lc \<Longrightarrow> topKeywords lc echoNormalized 6 = map js [''topic'', ''key'', ''terms'', ''summary'']"
  by (simp add: topKeywords_def echo_tokens countToken_def getOrZero_def mapGet_def js_def)

lemma echo_nums: "matchAll numsRe (start echoNormalized) = []"
  by (simp add: numsRe_def digit_def lit_def echoNormalized_def js_def ellipsis_def cursor_defs Plus_def
      isDigit_def isWordUnit_def wordBefore_def wordAfter_def matchAll.simps)

lemma echo_dates: "matchAll datesRe (start echoNormalized) = []"
  by (simp add: datesRe_def digit_def litI_def upperUnit_def echoNormalized_def js_def ellipsis_def
      cursor_defs Plus_def isDigit_def isWordUnit_def wordBefore_def wordAfter_def matchAll.simps)

lemma echo_sentences:
  "sentencesOf echoNormalized =
     [js ''- Topic:'', js ''Topic - Key terms:'', js ''topic, key, terms, summary - Summary:'',
      js ''- Topic:'', js ''Topic - Key terms:'', js ''topic, key, terms, summary - Summary:'',
      js ''- Topic:'', js ''Topic - Key terms:'', js ''topic, key, terms, summary - Summary:'',
      js ''- Topic:'', js ''Topic - Key terms:'' @ [ellipsis]]"
  by (simp add: sentencesOf_def splitBy_def sentenceRe_def spaces_def echoNormalized_def js_def ellipsis_def
      cursor_defs Plus_def isSpace_def splitRe.simps)

lemma echo_truncate:
  "truncate echoNormalized 160 =
     js ''- Topic: Topic - Key terms: topic, key, terms, summary - Summary: '' @
     js ''- Topic: Topic - Key terms: topic, key, terms, summary - Summary: '' @
     js ''- Topic: Topic - Key terms:'' @ [ellipsis]"
  by (simp add: truncate_def echoNormalized_def js_def ellipsis_def lastIndexOf_def trim_def isSpace_def)

lemma topic_tokens:
  assumes "lowersAscii lc"
  shows "tokenizeSummary lc (js ''- Topic:'') = [js ''topic'']"
  unfolding tokenizeSummary_def echo_lower(2) [OF assms]
  by (simp add: js_def cursor_defs Plus_def isLowerOrDigit_def matchAll.simps asciiLower_def
      lowerUnit_def stopSummary_def)

lemma echo_title:
  assumes "lowersAscii lc"
  shows "titleFromText lc (sentencesOf echoNormalized) echoNormalized = js ''Topic''"
proof -
  have n: "js ''- Topic:'' \<noteq> []" by (simp add: js_def)
  show ?thesis
    unfolding echo_sentences titleFromText_def list.case Let_def
    using n by (simp add: topic_tokens [OF assms])
      (simp add: js_def cursor_defs isWordUnit_def upperUnit_def)
qed

lemma topic_truncate: "truncate (js ''Topic'') 90 = js ''Topic''"
  by (simp add: truncate_def js_def)

lemma echo_short:
  assumes "lowersAscii lc"
  shows "shortSummary lc echoNormalized (sentencesOf echoNormalized) 5 = echoText"
  unfolding shortSummary_def Let_def echo_keywords [OF assms] echo_title [OF assms]
    extractNumbersDates_def echo_nums echo_dates echo_truncate topic_truncate
  by (simp add: newSet_def padBullets.simps echoText_def js_def)

text \<open>
  Claim C5 fails on the short path. The text \<open>echoText\<close> is not blank and has 226 units,
  so the short path summarizes it; the summary is the text itself, unit for unit, and so
  the normalized summary equals the normalized input. The standard path compares the
  two and replaces an echo; the short path does not. The text holds ASCII units and
  one ellipsis, and this is so for every lower-casing that maps such a text as the
  runtime does.
\<close>

theorem summary_echoes_input:
  "lowersAscii lc \<Longrightarrow>
   extractiveSummary lc echoText 5 = echoText
   \<and> canonical lc (extractiveSummary lc echoText 5) = canonical lc echoText
   \<and> \<not> blank echoText"
proof -
  assume lc: "lowersAscii lc"
  have n: "length echoNormalized < 280" "echoNormalized \<noteq> []"
    by (simp_all add: echoNormalized_def js_def)
  have "extractiveSummary lc echoText 5 = echoText"
    unfolding extractiveSummary_def echo_norm Let_def using n by (simp add: echo_short [OF lc])
  moreover have "\<not> blank echoText"
    by (simp add: blank_def echoText_def js_def isSpace_def)
  ultimately show ?thesis by simp
qed

theorem summary_echoes_input_witness:
  "extractiveSummary asciiLower echoText 5 = echoText
   \<and> canonical asciiLower (extractiveSummary asciiLower echoText 5) = canonical asciiLower echoText
   \<and> \<not> blank echoText"
  using summary_echoes_input [of asciiLower] by (simp add: lowersAscii_def)

end
